theory Spec2Isabelle
  imports Main "HOL-Library.AList"
begin

section \<open>Strings\<close>

text \<open>
  A Python \<^verbatim>\<open>str\<close> is a sequence of Unicode code points, so a string is a list of
  code points (the values of \<^verbatim>\<open>ord\<close>): \<^verbatim>\<open>len\<close> counts code points and the regular
  expressions of the module classify single code points. Korean literals of the source
  are written by their code points.
\<close>

type_synonym ustr = "int list"

text \<open>\<^verbatim>\<open>s.startswith(p)\<close>\<close>

definition startswith :: "ustr \<Rightarrow> ustr \<Rightarrow> bool" where
  "startswith s p = (take (length p) s = p)"

text \<open>\<^verbatim>\<open>sub in s\<close>: \<^verbatim>\<open>sub\<close> occurs in \<^verbatim>\<open>s\<close> as a contiguous run.\<close>

fun contains :: "ustr \<Rightarrow> ustr \<Rightarrow> bool" where
  "contains [] sub = (sub = [])"
| "contains (c # cs) sub = (startswith (c # cs) sub \<or> contains cs sub)"

text \<open>
  \<^verbatim>\<open>s.replace(old, new)\<close> without a count: every occurrence of \<^verbatim>\<open>old\<close>, found from
  left to right without overlap, is replaced. For an empty \<^verbatim>\<open>old\<close> Python puts
  \<^verbatim>\<open>new\<close> before every code point and at the end.
\<close>

function str_replace :: "ustr \<Rightarrow> ustr \<Rightarrow> ustr \<Rightarrow> ustr" where
  "str_replace old new [] = (if old = [] then new else [])"
| "str_replace old new (c # cs) =
     (if old = [] then new @ c # str_replace old new cs
      else if startswith (c # cs) old
        then new @ str_replace old new (drop (length old) (c # cs))
      else c # str_replace old new cs)"
  by pat_completeness auto
termination
  by (relation "measure (\<lambda>(old, new, s). length s)") (auto simp: neq_Nil_conv)

text \<open>Truth value of an \<^verbatim>\<open>Optional[str]\<close>: \<^verbatim>\<open>None\<close> and the empty string are false.\<close>

definition truthy :: "ustr option \<Rightarrow> bool" where
  "truthy a = (a \<noteq> None \<and> a \<noteq> Some [])"

section \<open>Literals of the module\<close>

text \<open>The long form of the province name, U+C804 U+B77C U+B0A8 U+B3C4.\<close>

definition jeollanamdo :: ustr where
  "jeollanamdo = [51204, 46972, 45224, 46020]"

text \<open>The short form of the province name, U+C804 U+B0A8.\<close>

definition jeonnam :: ustr where
  "jeonnam = [51204, 45224]"

section \<open>Address normalisation\<close>

text \<open>
  \<^verbatim>\<open>normalize_address\<close>. The argument may be \<^verbatim>\<open>None\<close>, which the first test
  catches together with the empty string.
\<close>

definition normalize_address :: "ustr option \<Rightarrow> ustr" where
  "normalize_address address =
     (if \<not> truthy address then []
      else if startswith (the address) jeollanamdo
        then str_replace jeollanamdo jeonnam (the address)
      else if startswith (the address) jeonnam then the address
      else the address)"

section \<open>Character classes and regular expressions\<close>

text \<open>
  The regular expressions of the module use the classes \<^verbatim>\<open>\w\<close>, \<^verbatim>\<open>\d\<close> and
  \<^verbatim>\<open>\s\<close> of Python's \<^verbatim>\<open>re\<close> on \<^verbatim>\<open>str\<close> patterns, which are tables of the
  Unicode database (\<^verbatim>\<open>str.split()\<close> without argument splits at the code points of
  \<^verbatim>\<open>\s\<close>). The tables are not part of the module, so they are a parameter of the
  model; nothing below depends on what they hold.
\<close>

record charclasses =
  is_word :: "int \<Rightarrow> bool"
  is_digit :: "int \<Rightarrow> bool"
  is_space :: "int \<Rightarrow> bool"

text \<open>
  The classes on Basic Latin and the Hangul syllables (U+AC00 to U+D7A3), where they
  agree with Python's; for evaluating the functions on concrete addresses.
\<close>

definition latin_hangul :: charclasses where
  "latin_hangul =
     \<lparr> is_word = (\<lambda>c. (48 \<le> c \<and> c \<le> 57) \<or> (65 \<le> c \<and> c \<le> 90) \<or> c = 95
                      \<or> (97 \<le> c \<and> c \<le> 122) \<or> (44032 \<le> c \<and> c \<le> 55203)),
       is_digit = (\<lambda>c. 48 \<le> c \<and> c \<le> 57),
       is_space = (\<lambda>c. (9 \<le> c \<and> c \<le> 13) \<or> (28 \<le> c \<and> c \<le> 32)) \<rparr>"

text \<open>
  A backtracking matcher in continuation style, as far as the two patterns need it.
  \<open>re_star p k acc s\<close> is a greedy repetition of the class \<open>p\<close> that has consumed
  \<open>acc\<close>: it first tries to consume one more code point, and only when the rest of the
  pattern fails from there it hands what it consumed, and the remaining input, to the
  rest of the pattern \<open>k\<close>. So the longest repetition for which the rest matches wins.
\<close>

fun re_star :: "(int \<Rightarrow> bool) \<Rightarrow> (ustr \<Rightarrow> ustr \<Rightarrow> 'a option) \<Rightarrow> ustr \<Rightarrow> ustr \<Rightarrow> 'a option" where
  "re_star p k acc [] = k acc []"
| "re_star p k acc (c # cs) =
     (case (if p c then re_star p k (acc @ [c]) cs else None) of
        Some r \<Rightarrow> Some r
      | None \<Rightarrow> k acc (c # cs))"

text \<open>One or more of the class \<open>p\<close>, greedy.\<close>

definition re_plus :: "(int \<Rightarrow> bool) \<Rightarrow> (ustr \<Rightarrow> ustr \<Rightarrow> 'a option) \<Rightarrow> ustr \<Rightarrow> 'a option" where
  "re_plus p k s = (case s of [] \<Rightarrow> None | c # cs \<Rightarrow> if p c then re_star p k [c] cs else None)"

text \<open>A literal code point.\<close>

definition re_lit :: "int \<Rightarrow> (ustr \<Rightarrow> 'a option) \<Rightarrow> ustr \<Rightarrow> 'a option" where
  "re_lit ch k s = (case s of [] \<Rightarrow> None | c # cs \<Rightarrow> if c = ch then k cs else None)"

text \<open>
  \<^verbatim>\<open>re.search\<close>: the pattern is tried at every position from the left, the end of the
  string included, and the first position where it matches gives the result.
\<close>

fun re_search :: "(ustr \<Rightarrow> 'a option) \<Rightarrow> ustr \<Rightarrow> 'a option" where
  "re_search m [] = m []"
| "re_search m (c # cs) = (case m (c # cs) of Some r \<Rightarrow> Some r | None \<Rightarrow> re_search m cs)"

text \<open>The syllable "dong" (sub-district), U+B3D9, and the hyphen.\<close>

definition dong :: int where
  "dong = 46041"

definition hyphen :: int where
  "hyphen = 45"

text \<open>The pattern \<^verbatim>\<open>(\w+D)\<close> with D the syllable dong; the result is group 1.\<close>

definition dong_pattern :: "charclasses \<Rightarrow> ustr \<Rightarrow> ustr option" where
  "dong_pattern cc = re_plus (is_word cc) (\<lambda>w. re_lit dong (\<lambda>rest. Some (w @ [dong])))"

text \<open>
  The pattern \<^verbatim>\<open>(\w+D)\s*(\d+[-\d]*)\<close> with D the syllable dong, from its end:
  \<open>number_part\<close> is \<^verbatim>\<open>(\d+[-\d]*)\<close> followed by acceptance, \<open>tail_part\<close> is
  \<^verbatim>\<open>\s*(\d+[-\d]*)\<close>; \<open>g\<close> is the text of group 1, already matched. The result is
  the pair of group 1 and group 2.
\<close>

definition number_part :: "charclasses \<Rightarrow> ustr \<Rightarrow> ustr \<Rightarrow> (ustr \<times> ustr) option" where
  "number_part cc g =
     re_plus (is_digit cc) (\<lambda>d.
       re_star (\<lambda>c. c = hyphen \<or> is_digit cc c) (\<lambda>e rest. Some (g, d @ e)) [])"

definition tail_part :: "charclasses \<Rightarrow> ustr \<Rightarrow> ustr \<Rightarrow> (ustr \<times> ustr) option" where
  "tail_part cc g = re_star (is_space cc) (\<lambda>ws. number_part cc g) []"

definition lot_number_pattern :: "charclasses \<Rightarrow> ustr \<Rightarrow> (ustr \<times> ustr) option" where
  "lot_number_pattern cc = re_plus (is_word cc) (\<lambda>w. re_lit dong (tail_part cc (w @ [dong])))"

section \<open>Extraction of the dong and of the lot number\<close>

text \<open>\<^verbatim>\<open>extract_dong_from_address\<close>\<close>

definition extract_dong_from_address :: "charclasses \<Rightarrow> ustr option \<Rightarrow> ustr option" where
  "extract_dong_from_address cc address =
     (if \<not> truthy address then None else re_search (dong_pattern cc) (the address))"

text \<open>\<^verbatim>\<open>extract_address_number\<close>: the two groups joined by one space (U+0020).\<close>

definition extract_address_number :: "charclasses \<Rightarrow> ustr option \<Rightarrow> ustr option" where
  "extract_address_number cc address =
     (if \<not> truthy address then None
      else case re_search (lot_number_pattern cc) (the address) of
             None \<Rightarrow> None
           | Some (g1, g2) \<Rightarrow> Some (g1 @ [32] @ g2))"

text \<open>
  What the lot-number pattern accepts at the head of a string, said without the
  matcher: one or more word characters, the syllable dong, any number of white-space
  characters (none is enough), and a digit. The pattern then takes every digit and
  hyphen that follows.
\<close>

definition lot_number_at :: "charclasses \<Rightarrow> ustr \<Rightarrow> bool" where
  "lot_number_at cc s =
     (\<exists>w ws c post. s = w @ dong # ws @ c # post \<and> w \<noteq> [] \<and> (\<forall>x\<in>set w. is_word cc x)
        \<and> (\<forall>x\<in>set ws. is_space cc x) \<and> is_digit cc c)"

text \<open>
  The split of an address that \<^verbatim>\<open>extract_address_number\<close> reads its result from, said
  without the matcher. The address is \<open>pre\<close>, the dong token \<open>w\<close> and the syllable dong,
  the white space \<open>ws\<close>, the number \<open>num\<close> and the rest \<open>post\<close>. The number starts with a
  digit and is the whole run of digits and hyphens there. The match is the leftmost one:
  the pattern matches at no earlier position. The leading quantifier is greedy: among all
  ways to read a dong token, white space and a digit at that position, \<open>w\<close> is the longest
  token, so the token ends at the last syllable dong that a number follows. The white
  space is the longest run that a digit follows.
\<close>

definition lot_number_split :: "charclasses \<Rightarrow> ustr \<Rightarrow> ustr \<Rightarrow> ustr \<Rightarrow> ustr \<Rightarrow> ustr \<Rightarrow> ustr \<Rightarrow> bool" where
  "lot_number_split cc a pre w ws num post =
     (a = pre @ w @ dong # ws @ num @ post
      \<and> w \<noteq> [] \<and> (\<forall>x\<in>set w. is_word cc x) \<and> (\<forall>x\<in>set ws. is_space cc x)
      \<and> num \<noteq> [] \<and> is_digit cc (hd num) \<and> (\<forall>x\<in>set num. x = hyphen \<or> is_digit cc x)
      \<and> (post = [] \<or> \<not> (hd post = hyphen \<or> is_digit cc (hd post)))
      \<and> (\<forall>i<length pre. \<not> lot_number_at cc (drop i a))
      \<and> (\<forall>w' ws' c' post'.
            w @ dong # ws @ num @ post = w' @ dong # ws' @ c' # post'
            \<and> (\<forall>x\<in>set w'. is_word cc x) \<and> (\<forall>x\<in>set ws'. is_space cc x) \<and> is_digit cc c'
            \<longrightarrow> length w' \<le> length w)
      \<and> (\<forall>ws' c' post'.
            ws @ num @ post = ws' @ c' # post' \<and> (\<forall>x\<in>set ws'. is_space cc x) \<and> is_digit cc c'
            \<longrightarrow> length ws' \<le> length ws))"

section \<open>Name tests\<close>

text \<open>
  \<^verbatim>\<open>s.split()\<close>: the maximal runs of code points that are not white space, in order;
  \<open>cur\<close> is the run being read.
\<close>

fun split_from :: "charclasses \<Rightarrow> ustr \<Rightarrow> ustr \<Rightarrow> ustr list" where
  "split_from cc cur [] = (if cur = [] then [] else [cur])"
| "split_from cc cur (c # cs) =
     (if is_space cc c
        then (if cur = [] then split_from cc [] cs else cur # split_from cc [] cs)
      else split_from cc (cur @ [c]) cs)"

definition str_split :: "charclasses \<Rightarrow> ustr \<Rightarrow> ustr list" where
  "str_split cc s = split_from cc [] s"

text \<open>
  The set \<^verbatim>\<open>common_words\<close> of the matching loop, nine Korean words: parking lot,
  public parking lot, public, parking, the ordinal prefix, dong, district, tower,
  swimming pool.
\<close>

definition common_words :: "ustr set" where
  "common_words =
     {[51452, 52264, 51109], [44277, 50689, 51452, 52264, 51109], [44277, 50689],
      [51452, 52264], [51228], [46041], [51648, 44396], [53440, 50892],
      [49688, 50689, 51109]}"

text \<open>"Culture and health", U+BB38 U+D654 U+AC74 U+AC15, and "swimming pool".\<close>

definition munhwageongang :: ustr where
  "munhwageongang = [47928, 54868, 44148, 44053]"

definition suyeongjang :: ustr where
  "suyeongjang = [49688, 50689, 51109]"

text \<open>The locals \<^verbatim>\<open>lot_name_in_charger\<close>, \<^verbatim>\<open>lot_name_keywords\<close> and \<^verbatim>\<open>keyword_match\<close>
  as the loop first computes them.\<close>

definition lot_name_in_charger :: "ustr \<Rightarrow> ustr \<Rightarrow> bool" where
  "lot_name_in_charger lot_name cname = (contains cname lot_name \<or> contains lot_name cname)"

definition lot_name_keywords :: "charclasses \<Rightarrow> ustr \<Rightarrow> ustr list" where
  "lot_name_keywords cc lot_name =
     filter (\<lambda>kw. kw \<notin> common_words \<and> length kw \<ge> 2) (str_split cc lot_name)"

definition keyword_match :: "charclasses \<Rightarrow> ustr \<Rightarrow> ustr \<Rightarrow> bool" where
  "keyword_match cc lot_name cname =
     (length (lot_name_keywords cc lot_name) > 0
      \<and> list_ex (\<lambda>kw. contains cname kw) (lot_name_keywords cc lot_name))"

section \<open>Charger records, the registry and its index\<close>

text \<open>
  The exceptions that the matching can raise: \<^verbatim>\<open>KeyError\<close> from a subscript on a
  dictionary that lacks the key, \<^verbatim>\<open>TypeError\<close> from \<^verbatim>\<open>in\<close> on a value that is no text,
  \<^verbatim>\<open>ValueError\<close> from unpacking a tuple of the wrong length.
\<close>

datatype error = KeyError | TypeError | ValueError

text \<open>
  A cell of the charger file as \<^verbatim>\<open>read_ev_charger_csv\<close> hands it on: a text, or, in a
  column that is read as numbers, an integer, or the float NaN of an empty cell.
\<close>

datatype cell = Text ustr | Number int | NaN

text \<open>
  A charger is a dictionary. The loop reads three keys by subscript and uses them as
  texts; the other four are read with \<^verbatim>\<open>get\<close> and a default of the empty string, so
  they may be missing. The capacity is searched with \<^verbatim>\<open>in\<close>, which a number does not
  allow, so it is a cell; the opening hours are searched only through \<^verbatim>\<open>str\<close>, and
  the last two fields are only passed on.
\<close>

record charger =
  charger_name :: ustr
  address :: ustr
  charger_type :: ustr
  capacity :: "cell option"
  available_time :: "ustr option"
  facility_type :: "ustr option"
  convenience :: "ustr option"

definition get_or_empty :: "ustr option \<Rightarrow> ustr" where
  "get_or_empty v = (case v of None \<Rightarrow> [] | Some x \<Rightarrow> x)"

text \<open>\<^verbatim>\<open>charger.get('capacity', '')\<close>\<close>

definition capacity_of :: "charger \<Rightarrow> cell" where
  "capacity_of ch = (case capacity ch of None \<Rightarrow> Text [] | Some v \<Rightarrow> v)"

text \<open>The cell is a text, and the text holds \<open>sub\<close>.\<close>

definition has_text :: "cell \<Rightarrow> ustr \<Rightarrow> bool" where
  "has_text v sub = (case v of Text s \<Rightarrow> contains s sub | Number n \<Rightarrow> False | NaN \<Rightarrow> False)"

text \<open>
  A lot of the registry is a tuple. The registry as it is written holds tuples of six
  fields: name, number of spaces, address, type, price text and charger text;
  \<^verbatim>\<open>add_parking_lot\<close> appends tuples of the first four fields only. The registry
  lists, for each dong, its lots.
\<close>

datatype lot = Lot ustr int ustr ustr ustr ustr | ShortLot ustr int ustr ustr

fun lot_name_of :: "lot \<Rightarrow> ustr" where
  "lot_name_of (Lot lot_name total_spaces addr parking_type price_info charger_info) = lot_name"
| "lot_name_of (ShortLot lot_name total_spaces addr parking_type) = lot_name"

type_synonym registry = "(ustr \<times> lot list) list"

text \<open>
  A value of \<^verbatim>\<open>parking_dict\<close>; the fields are named as the matching loop reads them
  (the keys are \<^verbatim>\<open>dong_name\<close>, \<^verbatim>\<open>address\<close> and \<^verbatim>\<open>address_number\<close>).
\<close>

record lot_info =
  lot_dong :: ustr
  lot_address :: ustr
  lot_address_number :: "ustr option"

text \<open>
  \<^verbatim>\<open>parking_dict\<close> is a dictionary in insertion order: an association list where
  storing under a key that is there replaces the value in place, and a new key goes to
  the end. The inner loop of the indexing unpacks every lot into six names, which
  raises on a tuple of four.
\<close>

definition index_lot :: "charclasses \<Rightarrow> ustr \<Rightarrow> lot \<Rightarrow> (ustr \<times> lot_info) list \<Rightarrow> error + (ustr \<times> lot_info) list" where
  "index_lot cc dn l parking_dict =
     (case l of
        Lot lot_name total_spaces addr parking_type price_info charger_info \<Rightarrow>
          Inr (AList.update lot_name
                 \<lparr> lot_dong = dn,
                   lot_address = normalize_address (Some addr),
                   lot_address_number =
                     extract_address_number cc (Some (normalize_address (Some addr))) \<rparr>
                 parking_dict)
      | ShortLot lot_name total_spaces addr parking_type \<Rightarrow> Inl ValueError)"

text \<open>The two loops of the indexing; an exception ends them.\<close>

fun index_lots :: "charclasses \<Rightarrow> ustr \<Rightarrow> lot list \<Rightarrow> (ustr \<times> lot_info) list \<Rightarrow> error + (ustr \<times> lot_info) list" where
  "index_lots cc dn [] parking_dict = Inr parking_dict"
| "index_lots cc dn (l # ls) parking_dict =
     (case index_lot cc dn l parking_dict of
        Inl e \<Rightarrow> Inl e
      | Inr d \<Rightarrow> index_lots cc dn ls d)"

fun index_dongs :: "charclasses \<Rightarrow> registry \<Rightarrow> (ustr \<times> lot_info) list \<Rightarrow> error + (ustr \<times> lot_info) list" where
  "index_dongs cc [] parking_dict = Inr parking_dict"
| "index_dongs cc (g # gs) parking_dict =
     (case index_lots cc (fst g) (snd g) parking_dict of
        Inl e \<Rightarrow> Inl e
      | Inr d \<Rightarrow> index_dongs cc gs d)"

definition build_parking_dict :: "charclasses \<Rightarrow> registry \<Rightarrow> error + (ustr \<times> lot_info) list" where
  "build_parking_dict cc parking_lots = index_dongs cc parking_lots []"

text \<open>
  The order in which a dictionary lists keys that were stored in the order \<open>xs\<close>: every
  key at the place where it was stored first.
\<close>

fun first_occurrences :: "'a list \<Rightarrow> 'a list" where
  "first_occurrences [] = []"
| "first_occurrences (x # xs) = x # filter (\<lambda>y. y \<noteq> x) (first_occurrences xs)"

text \<open>The names of the lots of the registry in the order in which the indexing reads them.\<close>

definition registry_names :: "registry \<Rightarrow> ustr list" where
  "registry_names parking_lots = map lot_name_of (concat (map snd parking_lots))"

section \<open>Scoring one lot\<close>

text \<open>What the loop derives from a charger before it looks at the lots.\<close>

definition charger_address :: "charger \<Rightarrow> ustr" where
  "charger_address ch = normalize_address (Some (address ch))"

definition charger_dong :: "charclasses \<Rightarrow> charger \<Rightarrow> ustr option" where
  "charger_dong cc ch = extract_dong_from_address cc (Some (charger_address ch))"

definition charger_address_number :: "charclasses \<Rightarrow> charger \<Rightarrow> ustr option" where
  "charger_address_number cc ch = extract_address_number cc (Some (charger_address ch))"

text \<open>
  The test that closes the body of the inner loop, and that the special case repeats:
  the lot becomes the best match when its score is above the best so far and at
  least 60.
\<close>

definition take_if_better :: "ustr \<Rightarrow> int \<Rightarrow> ustr option \<times> int \<Rightarrow> ustr option \<times> int" where
  "take_if_better lot_name score best =
     (if score > snd best \<and> score \<ge> 60 then (Some lot_name, score) else best)"

text \<open>
  The body of the inner loop for one entry of \<^verbatim>\<open>parking_dict\<close>. It returns the value
  of the local \<^verbatim>\<open>score\<close> when the iteration ends (at a \<^verbatim>\<open>continue\<close> or at the end of
  the body), and the pair of \<^verbatim>\<open>best_match\<close> and \<^verbatim>\<open>best_score\<close> after it.
\<close>

definition lot_step :: "charclasses \<Rightarrow> charger \<Rightarrow> ustr \<times> lot_info \<Rightarrow> ustr option \<times> int \<Rightarrow> int \<times> (ustr option \<times> int)" where
  "lot_step cc ch entry best =
     (case entry of (lot_name, info) \<Rightarrow>
      let name_hit = lot_name_in_charger lot_name (charger_name ch);
          special = (contains lot_name munhwageongang \<and> contains (charger_name ch) munhwageongang);
          kw_hit = (if special then True else keyword_match cc lot_name (charger_name ch))
      in
        if special \<and> charger_dong cc ch \<noteq> Some (lot_dong info)
           \<and> (contains (charger_address ch) suyeongjang \<or> contains (lot_address info) suyeongjang)
        then (0 + 70, take_if_better lot_name (0 + 70) best)
        else if charger_dong cc ch \<noteq> Some (lot_dong info) then (0, best)
        else
          let score1 =
                (if lot_address info = charger_address ch then 0 + 100
                 else if truthy (charger_address_number cc ch) \<and> truthy (lot_address_number info)
                   then (if charger_address_number cc ch = lot_address_number info
                         then (if name_hit \<or> kw_hit then 0 + 80 else 0)
                         else 0)
                 else 0);
              score2 =
                (if truthy (lot_address_number info)
                    \<and> contains (charger_address ch) (the (lot_address_number info))
                 then (if name_hit \<or> kw_hit then score1 + 60 else score1)
                 else score1)
          in (score2, take_if_better lot_name score2 best))"

text \<open>The score of a pair, which does not depend on the best match so far.\<close>

definition pair_score :: "charclasses \<Rightarrow> charger \<Rightarrow> ustr \<times> lot_info \<Rightarrow> int" where
  "pair_score cc ch entry = fst (lot_step cc ch entry (None, 0))"

text \<open>The inner loop: from no match and score 0 through the index in its order.\<close>

definition best_lot :: "charclasses \<Rightarrow> (ustr \<times> lot_info) list \<Rightarrow> charger \<Rightarrow> ustr option \<times> int" where
  "best_lot cc parking_dict ch =
     fold (\<lambda>entry best. snd (lot_step cc ch entry best)) parking_dict (None, 0)"

section \<open>The matched chargers\<close>

text \<open>
  "Fast" U+AE09 U+C18D and "slow" U+C644 U+C18D, the two charge types and the words
  looked for; "unavailable" U+C774 U+C6A9 U+BD88 U+AC00; "free" U+BB34 U+B8CC; and the
  markers \<^verbatim>\<open>DC\<close> and \<^verbatim>\<open>AC\<close>.
\<close>

definition geupsok :: ustr where
  "geupsok = [44553, 49549]"

definition wansok :: ustr where
  "wansok = [50756, 49549]"

definition iyongbulga :: ustr where
  "iyongbulga = [51060, 50857, 48520, 44032]"

definition muryo :: ustr where
  "muryo = [47924, 47308]"

definition marker_dc :: ustr where
  "marker_dc = [68, 67]"

definition marker_ac :: ustr where
  "marker_ac = [65, 67]"

record charger_entry =
  entry_charger_name :: ustr
  charge_type :: ustr
  is_available :: bool
  cost :: ustr
  entry_capacity :: cell
  entry_available_time :: ustr
  entry_facility_type :: ustr
  entry_convenience :: ustr

record lot_chargers =
  has_charger :: bool
  chargers :: "charger_entry list"

text \<open>
  The charge type. The first test reads the charger type and then, when that holds no
  \<^verbatim>\<open>DC\<close>, searches the capacity with \<^verbatim>\<open>in\<close>, which raises on a number; so every test
  after it finds a text. The capacity is tested twice, once as it is and once through
  \<^verbatim>\<open>str\<close>, which leaves a text as it is.
\<close>

definition charge_type_of :: "charger \<Rightarrow> error + ustr" where
  "charge_type_of ch =
     (if contains (charger_type ch) marker_dc then Inr geupsok
      else case capacity_of ch of
             Text cap \<Rightarrow>
               if contains cap geupsok \<or> contains cap geupsok then Inr geupsok
               else if contains (charger_type ch) marker_ac \<or> contains cap wansok
                  \<or> contains cap wansok
               then Inr wansok
               else Inr geupsok
           | Number n \<Rightarrow> Inl TypeError
           | NaN \<Rightarrow> Inl TypeError)"

definition is_available_of :: "charger \<Rightarrow> bool" where
  "is_available_of ch =
     (if get_or_empty (available_time ch) \<noteq> []
         \<and> contains (get_or_empty (available_time ch)) iyongbulga
      then False else True)"

text \<open>The dictionary that the loop appends for a charger, given its charge type.\<close>

definition entry_with :: "charger \<Rightarrow> ustr \<Rightarrow> charger_entry" where
  "entry_with ch t =
     \<lparr> entry_charger_name = charger_name ch,
       charge_type = t,
       is_available = is_available_of ch,
       cost = muryo,
       entry_capacity = capacity_of ch,
       entry_available_time = get_or_empty (available_time ch),
       entry_facility_type = get_or_empty (facility_type ch),
       entry_convenience = get_or_empty (convenience ch) \<rparr>"

definition make_entry :: "charger \<Rightarrow> error + charger_entry" where
  "make_entry ch =
     (case charge_type_of ch of Inl e \<Rightarrow> Inl e | Inr t \<Rightarrow> Inr (entry_with ch t))"

text \<open>
  The body of the outer loop: \<^verbatim>\<open>matched\<close> is a dictionary in insertion order. A best
  match that is the empty name is false in the test \<^verbatim>\<open>if best_match\<close>, like none.
  The charge type is worked out after the key is made sure of and before the subscript
  \<^verbatim>\<open>matched[best_match]\<close>, which depends on what the loop has stored so far and so is a
  branch of the model. Appending to the list held under the key changes that value in
  place.
\<close>

definition charger_step :: "charclasses \<Rightarrow> (ustr \<times> lot_info) list \<Rightarrow> charger \<Rightarrow> (ustr \<times> lot_chargers) list \<Rightarrow> error + (ustr \<times> lot_chargers) list" where
  "charger_step cc parking_dict ch matched =
     (let best_match = fst (best_lot cc parking_dict ch) in
      if truthy best_match then
        (let m1 = (if map_of matched (the best_match) = None
                   then AList.update (the best_match) \<lparr> has_charger = True, chargers = [] \<rparr> matched
                   else matched)
         in case make_entry ch of
              Inl e \<Rightarrow> Inl e
            | Inr en \<Rightarrow>
                (case map_of m1 (the best_match) of
                   None \<Rightarrow> Inl KeyError
                 | Some v \<Rightarrow>
                     Inr (AList.update (the best_match) (v\<lparr> chargers := chargers v @ [en] \<rparr>) m1)))
      else Inr matched)"

text \<open>The outer loop; an exception ends it.\<close>

fun match_loop :: "charclasses \<Rightarrow> (ustr \<times> lot_info) list \<Rightarrow> charger list \<Rightarrow> (ustr \<times> lot_chargers) list \<Rightarrow> error + (ustr \<times> lot_chargers) list" where
  "match_loop cc parking_dict [] matched = Inr matched"
| "match_loop cc parking_dict (ch # chs) matched =
     (case charger_step cc parking_dict ch matched of
        Inl e \<Rightarrow> Inl e
      | Inr m \<Rightarrow> match_loop cc parking_dict chs m)"

text \<open>\<^verbatim>\<open>match_charger_to_parking_lot\<close>: the index is built first, then the chargers are matched.\<close>

definition match_charger_to_parking_lot :: "charclasses \<Rightarrow> charger list \<Rightarrow> registry \<Rightarrow> error + (ustr \<times> lot_chargers) list" where
  "match_charger_to_parking_lot cc chs parking_lots =
     (case build_parking_dict cc parking_lots of
        Inl e \<Rightarrow> Inl e
      | Inr parking_dict \<Rightarrow> match_loop cc parking_dict chs [])"

text \<open>
  The chargers of the input whose best match is the lot \<open>l\<close>, in their order. A lot with
  the empty name is the best match of no charger that counts: the test \<^verbatim>\<open>if best_match\<close>
  is false for it.
\<close>

definition matched_to :: "charclasses \<Rightarrow> (ustr \<times> lot_info) list \<Rightarrow> charger list \<Rightarrow> ustr \<Rightarrow> charger list" where
  "matched_to cc parking_dict chs l =
     filter (\<lambda>c. l \<noteq> [] \<and> fst (best_lot cc parking_dict c) = Some l) chs"

section \<open>Example addresses\<close>

text \<open>"Jorye-dong", U+C870 U+B840 U+B3D9, and "Suncheon-si", U+C21C U+CC9C U+C2DC.\<close>

definition joryedong :: ustr where
  "joryedong = [51312, 47168, 46041]"

definition suncheonsi :: ustr where
  "suncheonsi = [49692, 52380, 49884]"

text \<open>The address "Jeonnam Suncheon-si Jorye-dong 1807" of the registry.\<close>

definition addr_jorye_1807 :: ustr where
  "addr_jorye_1807 = jeonnam @ [32] @ suncheonsi @ [32] @ joryedong @ [32, 49, 56, 48, 55]"

text \<open>"Jorye-dong1807", with nothing between the dong and the number.\<close>

definition addr_no_space :: ustr where
  "addr_no_space = joryedong @ [49, 56, 48, 55]"

section \<open>An example registry and example chargers\<close>

text \<open>
  The lot "Sumaegol public parking lot" in Jorye-dong, at the address above, and the lot
  "Culture and health centre swimming pool" in Seokhyeon-dong, at "Jeonnam Suncheon-si
  Seokhyeon-dong 35-10".
\<close>

definition name_sumaegol :: ustr where
  "name_sumaegol = [49688, 47588, 44264, 32, 44277, 50689, 51452, 52264, 51109]"

definition name_pool :: ustr where
  "name_pool = [47928, 54868, 44148, 44053, 49468, 53552, 32, 49688, 50689, 51109]"

definition seokhyeondong :: ustr where
  "seokhyeondong = [49437, 54788, 46041]"

definition addr_seokhyeon :: ustr where
  "addr_seokhyeon = jeonnam @ [32] @ suncheonsi @ [32] @ seokhyeondong @ [32, 51, 53, 45, 49, 48]"

definition registry_ex :: registry where
  "registry_ex =
     [(joryedong, [Lot name_sumaegol 50 addr_jorye_1807 muryo muryo []]),
      (seokhyeondong, [Lot name_pool 30 addr_seokhyeon muryo muryo []])]"

definition info_sumaegol :: lot_info where
  "info_sumaegol =
     \<lparr> lot_dong = joryedong, lot_address = addr_jorye_1807,
       lot_address_number = Some (joryedong @ [32, 49, 56, 48, 55]) \<rparr>"

definition info_pool :: lot_info where
  "info_pool =
     \<lparr> lot_dong = seokhyeondong, lot_address = addr_seokhyeon,
       lot_address_number = Some (seokhyeondong @ [32, 51, 53, 45, 49, 48]) \<rparr>"

text \<open>
  The charger "Sumaegol charging station" at "Suncheon-si Jorye-dong 1807", a fast one
  by its type \<^verbatim>\<open>DC\<close>; the same with two spaces before the number; a slow one of type
  \<^verbatim>\<open>AC\<close> whose opening hours hold the word "fast"; the charger "Suncheon-si culture and
  health centre" at "Jeonnam Suncheon-si culture and health centre swimming pool",
  an address without a dong; and a charger at "Suncheon-si".
\<close>

definition ch_sumaegol :: charger where
  "ch_sumaegol =
     \<lparr> charger_name = [49688, 47588, 44264, 32, 52649, 51204, 49548],
       address = suncheonsi @ [32] @ joryedong @ [32, 49, 56, 48, 55],
       charger_type = marker_dc, capacity = Some (Text [53, 48]), available_time = Some [50, 52],
       facility_type = None, convenience = None \<rparr>"

definition ch_sumaegol_wide :: charger where
  "ch_sumaegol_wide = ch_sumaegol \<lparr> address := suncheonsi @ [32] @ joryedong @ [32, 32, 49, 56, 48, 55] \<rparr>"

definition ch_slow :: charger where
  "ch_slow = ch_sumaegol \<lparr> charger_type := marker_ac, capacity := Some (Text [55]), available_time := Some geupsok \<rparr>"

definition ch_center :: charger where
  "ch_center =
     \<lparr> charger_name = suncheonsi @ [47928, 54868, 44148, 44053, 49468, 53552],
       address = jeonnam @ [32] @ suncheonsi @ [32, 47928, 54868, 44148, 44053, 49468, 53552, 32, 49688, 50689, 51109],
       charger_type = marker_dc, capacity = None, available_time = None,
       facility_type = None, convenience = None \<rparr>"

definition ch_nowhere :: charger where
  "ch_nowhere = ch_sumaegol \<lparr> address := suncheonsi \<rparr>"

text \<open>The lot name "B".\<close>

definition name_b :: ustr where
  "name_b = [66]"

text \<open>The culture and health centre charger with the address "Suncheon-si".\<close>

definition ch_center_far :: charger where
  "ch_center_far = ch_center \<lparr> address := suncheonsi \<rparr>"

text \<open>
  The lot "Sumaegol", and a registry that lists it after the Sumaegol public parking lot
  at the same address; the Sumaegol charger at "Suncheon-si Jorye-dong 1807-3".
\<close>

definition name_short :: ustr where
  "name_short = [49688, 47588, 44264]"

definition registry_tie :: registry where
  "registry_tie =
     [(joryedong, [Lot name_sumaegol 50 addr_jorye_1807 muryo muryo [],
                   Lot name_short 20 addr_jorye_1807 muryo muryo []])]"

definition ch_sub :: charger where
  "ch_sub = ch_sumaegol \<lparr> address := suncheonsi @ [32] @ joryedong @ [32, 49, 56, 48, 55, 45, 51] \<rparr>"

text \<open>
  The slow charger with the capacity 7 as a number, as the reader delivers a column of
  numbers; and the example registry after \<^verbatim>\<open>add_parking_lot\<close> has added the lot "B"
  to Jorye-dong.
\<close>

definition ch_numeric :: charger where
  "ch_numeric = ch_slow \<lparr> capacity := Some (Number 7) \<rparr>"

definition registry_added :: registry where
  "registry_added =
     [(joryedong, [Lot name_sumaegol 50 addr_jorye_1807 muryo muryo [],
                   ShortLot name_b 10 addr_jorye_1807 muryo]),
      (seokhyeondong, [Lot name_pool 30 addr_seokhyeon muryo muryo []])]"

text \<open>"Jorye-dong1807-dong 5": a second dong syllable after the digits.\<close>

definition addr_two_dongs :: ustr where
  "addr_two_dongs = joryedong @ [49, 56, 48, 55, 46041, 32, 53]"

section \<open>Properties of the normaliser\<close>

lemma str_replace_prefix:
  "old \<noteq> [] \<Longrightarrow> startswith s old \<Longrightarrow>
   str_replace old new s = new @ str_replace old new (drop (length old) s)"
  by (cases s) (auto simp: startswith_def)

lemma normalize_address_head:
  assumes "truthy (Some a)" "startswith a jeollanamdo"
  shows "\<exists>r. normalize_address (Some a) = jeonnam @ r"
proof -
  have "jeollanamdo \<noteq> []" by (simp add: jeollanamdo_def)
  from str_replace_prefix [OF this assms(2)] assms show ?thesis
    by (auto simp: normalize_address_def)
qed

lemma jeonnam_not_long: "\<not> startswith (jeonnam @ r) jeollanamdo"
  by (simp add: startswith_def jeonnam_def jeollanamdo_def)

text \<open>
  C10. Normalising twice is the same as normalising once: a rewritten address begins
  with the short form, which is not a prefix of the long form, and every other address
  is returned as it is.
\<close>

theorem normalize_address_idempotent:
  "normalize_address (Some (normalize_address a)) = normalize_address a"
proof (cases "truthy a \<and> startswith (the a) jeollanamdo")
  case True
  then obtain s where a: "a = Some s" and t: "truthy (Some s)" and p: "startswith s jeollanamdo"
    by (cases a) (auto simp: truthy_def)
  from normalize_address_head [OF t p] obtain r
    where r: "normalize_address (Some s) = jeonnam @ r" by blast
  have "\<not> startswith (jeonnam @ r) jeollanamdo" by (rule jeonnam_not_long)
  moreover have "truthy (Some (jeonnam @ r))" by (simp add: truthy_def jeonnam_def)
  ultimately show ?thesis unfolding a r by (simp add: normalize_address_def)
next
  case False
  then show ?thesis by (auto simp: normalize_address_def truthy_def)
qed

text \<open>
  C7. An address that begins with the long form and holds it a second time further on:
  the guard tests the prefix only, and the replacement without a count rewrites the
  second occurrence as well, so the remainder is not left as it was. The input is the
  long form, a space, and the long form again. The same occurrence after a space, with
  no long form in front, is left alone.
\<close>

theorem normalize_address_rewrites_remainder:
  "normalize_address (Some (jeollanamdo @ [32] @ jeollanamdo)) = jeonnam @ [32] @ jeonnam
   \<and> normalize_address (Some (jeollanamdo @ [32] @ jeollanamdo)) \<noteq> jeonnam @ [32] @ jeollanamdo
   \<and> normalize_address (Some ([32] @ jeollanamdo)) = [32] @ jeollanamdo"
  by (simp add: normalize_address_def truthy_def startswith_def jeollanamdo_def jeonnam_def)

section \<open>Properties of the lot-number pattern\<close>

lemma re_star_sound:
  "re_star p k acc s = Some r \<Longrightarrow> \<exists>u v. s = u @ v \<and> (\<forall>x\<in>set u. p x) \<and> k (acc @ u) v = Some r"
proof (induction s arbitrary: acc)
  case Nil
  then show ?case by simp
next
  case (Cons c cs)
  show ?case
  proof (cases "p c \<and> re_star p k (acc @ [c]) cs = Some r")
    case True
    with Cons.IH [of "acc @ [c]"] obtain u v
      where "cs = u @ v" "\<forall>x\<in>set u. p x" "k (acc @ c # u) v = Some r" by auto
    with True have "c # cs = (c # u) @ v \<and> (\<forall>x\<in>set (c # u). p x) \<and> k (acc @ c # u) v = Some r"
      by simp
    then show ?thesis by blast
  next
    case False
    with Cons.prems have "k acc (c # cs) = Some r"
      by (auto split: if_splits option.splits)
    then have "c # cs = [] @ (c # cs) \<and> (\<forall>x\<in>set []. p x) \<and> k (acc @ []) (c # cs) = Some r"
      by simp
    then show ?thesis by blast
  qed
qed

lemma re_star_complete:
  "(\<forall>x\<in>set u. p x) \<Longrightarrow> k (acc @ u) v \<noteq> None \<Longrightarrow> re_star p k acc (u @ v) \<noteq> None"
proof (induction u arbitrary: acc)
  case Nil
  then show ?case by (cases v) (auto split: option.splits)
next
  case (Cons x u)
  from Cons.IH [of "acc @ [x]"] Cons.prems have "re_star p k (acc @ [x]) (u @ v) \<noteq> None" by simp
  with Cons.prems show ?case by (auto split: option.splits)
qed

lemma re_star_total:
  "(\<And>a r. k a r \<noteq> None) \<Longrightarrow> re_star p k acc s = k (acc @ takeWhile p s) (dropWhile p s)"
proof (induction s arbitrary: acc)
  case Nil
  then show ?case by simp
next
  case (Cons c cs)
  from Cons.prems have nn: "k (acc @ c # takeWhile p cs) (dropWhile p cs) \<noteq> None" by blast
  from Cons.IH [OF Cons.prems, of "acc @ [c]"] nn show ?case
    by (auto split: option.splits)
qed


lemma takeWhile_two:
  "(\<And>x. p x \<Longrightarrow> q x) \<Longrightarrow> takeWhile p xs @ takeWhile q (dropWhile p xs) = takeWhile q xs"
  by (induction xs) auto

lemma re_star_accept:
  "re_star p (\<lambda>e rest. Some (f e)) acc s = Some (f (acc @ takeWhile p s))"
  by (subst re_star_total) simp_all

lemma number_part_eq:
  "number_part cc g s =
     (case s of [] \<Rightarrow> None
      | c # cs \<Rightarrow> if is_digit cc c then Some (g, takeWhile (\<lambda>c. c = hyphen \<or> is_digit cc c) s) else None)"
proof (cases s)
  case Nil
  then show ?thesis by (simp add: number_part_def re_plus_def)
next
  case (Cons c cs)
  let ?dh = "\<lambda>c. c = hyphen \<or> is_digit cc c"
  let ?k = "\<lambda>d. re_star ?dh (\<lambda>e rest. Some (g, d @ e)) []"
  have "re_star (is_digit cc) ?k [c] cs
          = ?k ([c] @ takeWhile (is_digit cc) cs) (dropWhile (is_digit cc) cs)"
    by (rule re_star_total) (simp add: re_star_accept)
  also have "\<dots> = Some (g, ([c] @ takeWhile (is_digit cc) cs) @ takeWhile ?dh (dropWhile (is_digit cc) cs))"
    by (rule re_star_accept [where acc = "[]", simplified])
  finally have st: "re_star (is_digit cc) ?k [c] cs
      = Some (g, c # takeWhile (is_digit cc) cs @ takeWhile ?dh (dropWhile (is_digit cc) cs))"
    by simp
  have "takeWhile (is_digit cc) cs @ takeWhile ?dh (dropWhile (is_digit cc) cs) = takeWhile ?dh cs"
    by (rule takeWhile_two) simp
  with st Cons show ?thesis by (simp add: number_part_def re_plus_def)
qed

lemma tail_part_sound:
  assumes "tail_part cc g s = Some r"
  shows "\<exists>ws c cs. s = ws @ c # cs \<and> (\<forall>x\<in>set ws. is_space cc x) \<and> is_digit cc c
           \<and> r = (g, takeWhile (\<lambda>c. c = hyphen \<or> is_digit cc c) (c # cs))"
proof -
  from re_star_sound [OF assms [unfolded tail_part_def]] obtain ws t
    where s: "s = ws @ t" and ws: "\<forall>x\<in>set ws. is_space cc x" and n: "number_part cc g t = Some r"
    by auto
  from n obtain c cs where "t = c # cs" "is_digit cc c"
    "r = (g, takeWhile (\<lambda>c. c = hyphen \<or> is_digit cc c) (c # cs))"
    by (auto simp: number_part_eq split: list.splits if_splits)
  with s ws show ?thesis by blast
qed

lemma tail_part_complete:
  assumes "\<forall>x\<in>set ws. is_space cc x" "is_digit cc c"
  shows "tail_part cc g (ws @ c # cs) \<noteq> None"
  unfolding tail_part_def
  by (rule re_star_complete) (use assms in \<open>simp_all add: number_part_eq\<close>)

lemma lot_number_pattern_sound:
  assumes "lot_number_pattern cc s = Some r"
  shows "\<exists>w ws c cs. s = w @ dong # ws @ c # cs \<and> w \<noteq> [] \<and> (\<forall>x\<in>set w. is_word cc x)
           \<and> (\<forall>x\<in>set ws. is_space cc x) \<and> is_digit cc c
           \<and> r = (w @ [dong], takeWhile (\<lambda>c. c = hyphen \<or> is_digit cc c) (c # cs))"
proof -
  from assms obtain c0 s' where s: "s = c0 # s'" and c0: "is_word cc c0"
    and st: "re_star (is_word cc) (\<lambda>w. re_lit dong (tail_part cc (w @ [dong]))) [c0] s' = Some r"
    by (auto simp: lot_number_pattern_def re_plus_def split: list.splits if_splits)
  from re_star_sound [OF st] obtain u v where s': "s' = u @ v" and u: "\<forall>x\<in>set u. is_word cc x"
    and l: "re_lit dong (tail_part cc (([c0] @ u) @ [dong])) v = Some r" by blast
  from l obtain v' where v: "v = dong # v'" and t: "tail_part cc ((c0 # u) @ [dong]) v' = Some r"
    by (auto simp: re_lit_def split: list.splits if_splits)
  from tail_part_sound [OF t] obtain ws c cs where "v' = ws @ c # cs" "\<forall>x\<in>set ws. is_space cc x"
    "is_digit cc c" "r = ((c0 # u) @ [dong], takeWhile (\<lambda>c. c = hyphen \<or> is_digit cc c) (c # cs))"
    by blast
  with s s' v u c0 have "s = (c0 # u) @ dong # ws @ c # cs \<and> c0 # u \<noteq> [] \<and> (\<forall>x\<in>set (c0 # u). is_word cc x)
      \<and> (\<forall>x\<in>set ws. is_space cc x) \<and> is_digit cc c
      \<and> r = ((c0 # u) @ [dong], takeWhile (\<lambda>c. c = hyphen \<or> is_digit cc c) (c # cs))"
    by simp
  then show ?thesis by blast
qed

lemma lot_number_pattern_complete:
  assumes "lot_number_at cc s"
  shows "lot_number_pattern cc s \<noteq> None"
proof -
  from assms obtain w ws c post where s: "s = w @ dong # ws @ c # post" and w: "w \<noteq> []"
    "\<forall>x\<in>set w. is_word cc x" and ws: "\<forall>x\<in>set ws. is_space cc x" and c: "is_digit cc c"
    unfolding lot_number_at_def by blast
  from w obtain c0 u where wu: "w = c0 # u" by (cases w) auto
  have "re_star (is_word cc) (\<lambda>w. re_lit dong (tail_part cc (w @ [dong]))) [c0] (u @ dong # ws @ c # post) \<noteq> None"
    by (rule re_star_complete) (use w wu tail_part_complete [OF ws c] in \<open>simp_all add: re_lit_def\<close>)
  with s wu w show ?thesis by (simp add: lot_number_pattern_def re_plus_def)
qed

lemma lot_number_pattern_iff: "lot_number_pattern cc s \<noteq> None \<longleftrightarrow> lot_number_at cc s"
proof
  assume "lot_number_pattern cc s \<noteq> None"
  then obtain r where "lot_number_pattern cc s = Some r" by auto
  from lot_number_pattern_sound [OF this] show "lot_number_at cc s"
    unfolding lot_number_at_def by blast
qed (rule lot_number_pattern_complete)

lemma re_search_sound:
  "re_search m s = Some r \<Longrightarrow>
     \<exists>pre t. s = pre @ t \<and> m t = Some r \<and> (\<forall>i<length pre. m (drop i s) = None)"
proof (induction s)
  case Nil
  then show ?case by simp
next
  case (Cons c cs)
  show ?case
  proof (cases "m (c # cs)")
    case (Some r')
    with Cons.prems have "c # cs = [] @ (c # cs) \<and> m (c # cs) = Some r
        \<and> (\<forall>i<length ([]::ustr). m (drop i (c # cs)) = None)" by simp
    then show ?thesis by blast
  next
    case None
    with Cons.prems have "re_search m cs = Some r" by simp
    from Cons.IH [OF this] obtain pre t where cs: "cs = pre @ t" and t: "m t = Some r"
      and lm: "\<forall>i<length pre. m (drop i cs) = None" by blast
    have "\<forall>i<length (c # pre). m (drop i (c # cs)) = None"
    proof (intro allI impI)
      fix i assume "i < length (c # pre)"
      then show "m (drop i (c # cs)) = None"
        using None lm by (cases i) auto
    qed
    with cs t have "c # cs = (c # pre) @ t \<and> m t = Some r
        \<and> (\<forall>i<length (c # pre). m (drop i (c # cs)) = None)" by simp
    then show ?thesis by blast
  qed
qed

lemma re_search_complete: "m t \<noteq> None \<Longrightarrow> re_search m (pre @ t) \<noteq> None"
proof (induction pre)
  case Nil
  then show ?case by (cases t) (auto split: option.splits)
next
  case (Cons c pre)
  then show ?case by (auto split: option.splits)
qed

lemma re_star_greedy:
  "re_star p k acc s = Some r \<Longrightarrow>
     \<exists>u v. s = u @ v \<and> (\<forall>x\<in>set u. p x) \<and> k (acc @ u) v = Some r
       \<and> (\<forall>u' v'. s = u' @ v' \<and> (\<forall>x\<in>set u'. p x) \<and> length u < length u'
             \<longrightarrow> k (acc @ u') v' = None)"
proof (induction s arbitrary: acc)
  case Nil
  then show ?case by simp
next
  case (Cons c cs)
  show ?case
  proof (cases "p c \<and> re_star p k (acc @ [c]) cs = Some r")
    case True
    with Cons.IH [of "acc @ [c]"] obtain u v
      where uv: "cs = u @ v" "\<forall>x\<in>set u. p x" "k (acc @ c # u) v = Some r"
        and mx: "\<forall>u' v'. cs = u' @ v' \<and> (\<forall>x\<in>set u'. p x) \<and> length u < length u'
             \<longrightarrow> k ((acc @ [c]) @ u') v' = None" by auto
    have "\<forall>u' v'. c # cs = u' @ v' \<and> (\<forall>x\<in>set u'. p x) \<and> length (c # u) < length u'
             \<longrightarrow> k (acc @ u') v' = None"
    proof (intro allI impI)
      fix u' v'
      assume a: "c # cs = u' @ v' \<and> (\<forall>x\<in>set u'. p x) \<and> length (c # u) < length u'"
      then obtain u0 where u0: "u' = c # u0" by (cases u') auto
      with a have "cs = u0 @ v'" "\<forall>x\<in>set u0. p x" "length u < length u0" by auto
      with mx have "k ((acc @ [c]) @ u0) v' = None" by blast
      with u0 show "k (acc @ u') v' = None" by simp
    qed
    with True uv have "c # cs = (c # u) @ v \<and> (\<forall>x\<in>set (c # u). p x) \<and> k (acc @ c # u) v = Some r
        \<and> (\<forall>u' v'. c # cs = u' @ v' \<and> (\<forall>x\<in>set u'. p x) \<and> length (c # u) < length u'
             \<longrightarrow> k (acc @ u') v' = None)"
      by simp
    then show ?thesis by blast
  next
    case False
    with Cons.prems have here: "k acc (c # cs) = Some r"
      by (auto split: if_splits option.splits)
    have inner: "p c \<Longrightarrow> re_star p k (acc @ [c]) cs = None"
      using False Cons.prems by (auto split: option.splits)
    have "\<forall>u' v'. c # cs = u' @ v' \<and> (\<forall>x\<in>set u'. p x) \<and> length ([]::ustr) < length u'
             \<longrightarrow> k (acc @ u') v' = None"
    proof (intro allI impI)
      fix u' v'
      assume a: "c # cs = u' @ v' \<and> (\<forall>x\<in>set u'. p x) \<and> length ([]::ustr) < length u'"
      then obtain u0 where u0: "u' = c # u0" by (cases u') auto
      with a have cs: "cs = u0 @ v'" and pu: "\<forall>x\<in>set u0. p x" and pc: "p c" by auto
      show "k (acc @ u') v' = None"
      proof (rule ccontr)
        assume "k (acc @ u') v' \<noteq> None"
        with u0 have "k ((acc @ [c]) @ u0) v' \<noteq> None" by simp
        from re_star_complete [of u0 p k "acc @ [c]" v', OF pu this] cs inner [OF pc]
        show False by simp
      qed
    qed
    with here have "c # cs = [] @ (c # cs) \<and> (\<forall>x\<in>set []. p x) \<and> k (acc @ []) (c # cs) = Some r
        \<and> (\<forall>u' v'. c # cs = u' @ v' \<and> (\<forall>x\<in>set u'. p x) \<and> length ([]::ustr) < length u'
             \<longrightarrow> k (acc @ u') v' = None)"
      by simp
    then show ?thesis by blast
  qed
qed

lemma tail_part_greedy:
  assumes "tail_part cc g s = Some r"
  shows "\<exists>ws c cs. s = ws @ c # cs \<and> (\<forall>x\<in>set ws. is_space cc x) \<and> is_digit cc c
           \<and> r = (g, takeWhile (\<lambda>c. c = hyphen \<or> is_digit cc c) (c # cs))
           \<and> (\<forall>ws' c' cs'. s = ws' @ c' # cs' \<and> (\<forall>x\<in>set ws'. is_space cc x) \<and> is_digit cc c'
                 \<longrightarrow> length ws' \<le> length ws)"
proof -
  from re_star_greedy [OF assms [unfolded tail_part_def]] obtain ws t
    where s: "s = ws @ t" and ws: "\<forall>x\<in>set ws. is_space cc x" and n: "number_part cc g t = Some r"
      and mx: "\<forall>u' v'. s = u' @ v' \<and> (\<forall>x\<in>set u'. is_space cc x) \<and> length ws < length u'
                 \<longrightarrow> number_part cc g v' = None"
    by auto
  from n obtain c cs where t: "t = c # cs" "is_digit cc c"
    "r = (g, takeWhile (\<lambda>c. c = hyphen \<or> is_digit cc c) (c # cs))"
    by (auto simp: number_part_eq split: list.splits if_splits)
  have "\<forall>ws' c' cs'. s = ws' @ c' # cs' \<and> (\<forall>x\<in>set ws'. is_space cc x) \<and> is_digit cc c'
                 \<longrightarrow> length ws' \<le> length ws"
  proof (intro allI impI, rule ccontr)
    fix ws' c' cs'
    assume a: "s = ws' @ c' # cs' \<and> (\<forall>x\<in>set ws'. is_space cc x) \<and> is_digit cc c'"
      and "\<not> length ws' \<le> length ws"
    with mx [rule_format, of ws' "c' # cs'"] have "number_part cc g (c' # cs') = None" by simp
    with a show False by (simp add: number_part_eq)
  qed
  with s ws t show ?thesis by blast
qed

lemma lot_number_pattern_greedy:
  assumes "lot_number_pattern cc s = Some r"
  shows "\<exists>w ws c cs. s = w @ dong # ws @ c # cs \<and> w \<noteq> [] \<and> (\<forall>x\<in>set w. is_word cc x)
           \<and> (\<forall>x\<in>set ws. is_space cc x) \<and> is_digit cc c
           \<and> r = (w @ [dong], takeWhile (\<lambda>c. c = hyphen \<or> is_digit cc c) (c # cs))
           \<and> (\<forall>w' ws' c' cs'. s = w' @ dong # ws' @ c' # cs' \<and> (\<forall>x\<in>set w'. is_word cc x)
                   \<and> (\<forall>x\<in>set ws'. is_space cc x) \<and> is_digit cc c'
                 \<longrightarrow> length w' \<le> length w)
           \<and> (\<forall>ws' c' cs'. ws @ c # cs = ws' @ c' # cs' \<and> (\<forall>x\<in>set ws'. is_space cc x)
                   \<and> is_digit cc c'
                 \<longrightarrow> length ws' \<le> length ws)"
proof -
  let ?K = "\<lambda>w. re_lit dong (tail_part cc (w @ [dong]))"
  from assms obtain c0 s' where s: "s = c0 # s'" and c0: "is_word cc c0"
    and st: "re_star (is_word cc) ?K [c0] s' = Some r"
    by (auto simp: lot_number_pattern_def re_plus_def split: list.splits if_splits)
  from re_star_greedy [OF st] obtain u v where s': "s' = u @ v" and u: "\<forall>x\<in>set u. is_word cc x"
    and l: "?K ([c0] @ u) v = Some r"
    and mx: "\<forall>u' v'. s' = u' @ v' \<and> (\<forall>x\<in>set u'. is_word cc x) \<and> length u < length u'
               \<longrightarrow> ?K ([c0] @ u') v' = None" by blast
  from l obtain v' where v: "v = dong # v'" and t: "tail_part cc ((c0 # u) @ [dong]) v' = Some r"
    by (auto simp: re_lit_def split: list.splits if_splits)
  from tail_part_greedy [OF t] obtain ws c cs where v': "v' = ws @ c # cs"
    and ws: "\<forall>x\<in>set ws. is_space cc x" and c: "is_digit cc c"
    and r: "r = ((c0 # u) @ [dong], takeWhile (\<lambda>c. c = hyphen \<or> is_digit cc c) (c # cs))"
    and wmx: "\<forall>ws' c' cs'. v' = ws' @ c' # cs' \<and> (\<forall>x\<in>set ws'. is_space cc x) \<and> is_digit cc c'
                 \<longrightarrow> length ws' \<le> length ws"
    by blast
  have long: "\<forall>w' ws' c' cs'. s = w' @ dong # ws' @ c' # cs' \<and> (\<forall>x\<in>set w'. is_word cc x)
                   \<and> (\<forall>x\<in>set ws'. is_space cc x) \<and> is_digit cc c'
                 \<longrightarrow> length w' \<le> length (c0 # u)"
  proof (intro allI impI, rule ccontr)
    fix w' ws' c' cs'
    assume a: "s = w' @ dong # ws' @ c' # cs' \<and> (\<forall>x\<in>set w'. is_word cc x)
                   \<and> (\<forall>x\<in>set ws'. is_space cc x) \<and> is_digit cc c'"
      and n: "\<not> length w' \<le> length (c0 # u)"
    then obtain u' where w': "w' = c0 # u'" using s by (cases w') auto
    with a s n have "s' = u' @ (dong # ws' @ c' # cs')" "\<forall>x\<in>set u'. is_word cc x"
      "length u < length u'" by auto
    with mx have "?K ([c0] @ u') (dong # ws' @ c' # cs') = None" by blast
    then have "tail_part cc ((c0 # u') @ [dong]) (ws' @ c' # cs') = None"
      by (simp add: re_lit_def)
    moreover from a have "tail_part cc ((c0 # u') @ [dong]) (ws' @ c' # cs') \<noteq> None"
      by (simp add: tail_part_complete)
    ultimately show False by simp
  qed
  from s s' v v' u c0 ws c r long wmx
  have "s = (c0 # u) @ dong # ws @ c # cs \<and> c0 # u \<noteq> [] \<and> (\<forall>x\<in>set (c0 # u). is_word cc x)
      \<and> (\<forall>x\<in>set ws. is_space cc x) \<and> is_digit cc c
      \<and> r = ((c0 # u) @ [dong], takeWhile (\<lambda>c. c = hyphen \<or> is_digit cc c) (c # cs))
      \<and> (\<forall>w' ws' c' cs'. s = w' @ dong # ws' @ c' # cs' \<and> (\<forall>x\<in>set w'. is_word cc x)
                   \<and> (\<forall>x\<in>set ws'. is_space cc x) \<and> is_digit cc c'
                 \<longrightarrow> length w' \<le> length (c0 # u))
      \<and> (\<forall>ws' c' cs'. ws @ c # cs = ws' @ c' # cs' \<and> (\<forall>x\<in>set ws'. is_space cc x)
                   \<and> is_digit cc c'
                 \<longrightarrow> length ws' \<le> length ws)"
    by simp
  then show ?thesis by blast
qed


lemma takeWhile_exact:
  "(\<forall>x\<in>set xs. P x) \<Longrightarrow> ys = [] \<or> \<not> P (hd ys) \<Longrightarrow> takeWhile P (xs @ ys) = xs"
  by (cases ys) (simp_all add: takeWhile_append2)

lemma lot_number_splitI:
  assumes "a = pre @ w @ dong # ws @ num @ post"
    and "w \<noteq> []" and "\<forall>x\<in>set w. is_word cc x" and "\<forall>x\<in>set ws. is_space cc x"
    and "num \<noteq> []" and "is_digit cc (hd num)" and "\<forall>x\<in>set num. x = hyphen \<or> is_digit cc x"
    and "post = [] \<or> \<not> (hd post = hyphen \<or> is_digit cc (hd post))"
    and "\<forall>i<length pre. \<not> lot_number_at cc (drop i a)"
    and "\<forall>w' ws' c' post'.
            w @ dong # ws @ num @ post = w' @ dong # ws' @ c' # post'
            \<and> (\<forall>x\<in>set w'. is_word cc x) \<and> (\<forall>x\<in>set ws'. is_space cc x) \<and> is_digit cc c'
            \<longrightarrow> length w' \<le> length w"
    and "\<forall>ws' c' post'.
            ws @ num @ post = ws' @ c' # post' \<and> (\<forall>x\<in>set ws'. is_space cc x) \<and> is_digit cc c'
            \<longrightarrow> length ws' \<le> length ws"
  shows "lot_number_split cc a pre w ws num post"
  unfolding lot_number_split_def by (intro conjI assms)

lemma lot_number_splitD:
  assumes "lot_number_split cc a pre w ws num post"
  shows "a = pre @ w @ dong # ws @ num @ post"
    and "w \<noteq> []" and "\<forall>x\<in>set w. is_word cc x" and "\<forall>x\<in>set ws. is_space cc x"
    and "num \<noteq> []" and "is_digit cc (hd num)" and "\<forall>x\<in>set num. x = hyphen \<or> is_digit cc x"
    and "post = [] \<or> \<not> (hd post = hyphen \<or> is_digit cc (hd post))"
    and "\<forall>i<length pre. \<not> lot_number_at cc (drop i a)"
    and "\<forall>w' ws' c' post'.
            w @ dong # ws @ num @ post = w' @ dong # ws' @ c' # post'
            \<and> (\<forall>x\<in>set w'. is_word cc x) \<and> (\<forall>x\<in>set ws'. is_space cc x) \<and> is_digit cc c'
            \<longrightarrow> length w' \<le> length w"
    and "\<forall>ws' c' post'.
            ws @ num @ post = ws' @ c' # post' \<and> (\<forall>x\<in>set ws'. is_space cc x) \<and> is_digit cc c'
            \<longrightarrow> length ws' \<le> length ws"
  using assms unfolding lot_number_split_def by - (elim conjE, assumption)+

lemma lot_number_split_at:
  assumes "lot_number_split cc a pre w ws num post"
  shows "a = pre @ w @ dong # ws @ num @ post" "lot_number_at cc (w @ dong # ws @ num @ post)"
proof -
  note d = lot_number_splitD [OF assms]
  show "a = pre @ w @ dong # ws @ num @ post" by (rule d(1))
  from d(5) have n: "num = hd num # tl num" by simp
  have "w @ dong # ws @ num @ post = w @ dong # ws @ hd num # (tl num @ post)"
    by (subst n) simp
  with d(2,3,4,6)
  have "w @ dong # ws @ num @ post = w @ dong # ws @ hd num # (tl num @ post) \<and> w \<noteq> []
      \<and> (\<forall>x\<in>set w. is_word cc x) \<and> (\<forall>x\<in>set ws. is_space cc x) \<and> is_digit cc (hd num)"
    by (intro conjI)
  then show "lot_number_at cc (w @ dong # ws @ num @ post)"
    unfolding lot_number_at_def by blast
qed

lemma lot_number_split_leftmost:
  assumes s: "lot_number_split cc a pre w ws num post"
    and s': "lot_number_split cc a pre' w' ws' num' post'"
  shows "length pre \<le> length pre'"
proof (rule ccontr)
  assume "\<not> length pre \<le> length pre'"
  then have "length pre' < length pre" by simp
  with lot_number_splitD(9) [OF s] have "\<not> lot_number_at cc (drop (length pre') a)"
    by blast
  moreover from lot_number_split_at [OF s']
  have "lot_number_at cc (drop (length pre') a)" by simp
  ultimately show False by simp
qed

lemma lot_number_split_token:
  assumes s: "lot_number_split cc a pre w ws num post"
    and s': "lot_number_split cc a pre w' ws' num' post'"
  shows "length w' \<le> length w"
proof -
  from lot_number_splitD(5) [OF s'] have n: "num' = hd num' # tl num'" by simp
  from lot_number_split_at(1) [OF s] lot_number_split_at(1) [OF s']
  have "w @ dong # ws @ num @ post = w' @ dong # ws' @ num' @ post'" by simp
  also have "\<dots> = w' @ dong # ws' @ hd num' # (tl num' @ post')" by (subst n) simp
  finally have e: "w @ dong # ws @ num @ post = w' @ dong # ws' @ hd num' # (tl num' @ post')" .
  from lot_number_splitD(10) [OF s, rule_format, of w' ws' "hd num'" "tl num' @ post'"]
    e lot_number_splitD(3,4,6) [OF s']
  show ?thesis by blast
qed

lemma lot_number_split_space:
  assumes s: "lot_number_split cc a pre w ws num post"
    and s': "lot_number_split cc a pre w ws' num' post'"
  shows "length ws' \<le> length ws"
proof -
  from lot_number_splitD(5) [OF s'] have n: "num' = hd num' # tl num'" by simp
  from lot_number_split_at(1) [OF s] lot_number_split_at(1) [OF s']
  have "ws @ num @ post = ws' @ num' @ post'" by simp
  also have "\<dots> = ws' @ hd num' # (tl num' @ post')" by (subst n) simp
  finally have e: "ws @ num @ post = ws' @ hd num' # (tl num' @ post')" .
  from lot_number_splitD(11) [OF s, rule_format, of ws' "hd num'" "tl num' @ post'"]
    e lot_number_splitD(4,6) [OF s']
  show ?thesis by blast
qed

lemma lot_number_split_unique:
  assumes s: "lot_number_split cc a pre w ws num post"
    and s': "lot_number_split cc a pre' w' ws' num' post'"
  shows "pre = pre' \<and> w = w' \<and> ws = ws' \<and> num = num' \<and> post = post'"
proof -
  let ?dh = "\<lambda>x. x = hyphen \<or> is_digit cc x"
  have "length pre = length pre'"
    using lot_number_split_leftmost [OF s s'] lot_number_split_leftmost [OF s' s] by simp
  with lot_number_split_at(1) [OF s] lot_number_split_at(1) [OF s']
  have pre: "pre = pre'" by simp
  have "length w = length w'"
    using lot_number_split_token [OF s s' [folded pre]]
      lot_number_split_token [OF s' [folded pre] s] by simp
  with lot_number_split_at(1) [OF s] lot_number_split_at(1) [OF s'] pre
  have w: "w = w'" by simp
  have "length ws = length ws'"
    using lot_number_split_space [OF s s' [folded pre w]]
      lot_number_split_space [OF s' [folded pre w] s] by simp
  with lot_number_split_at(1) [OF s] lot_number_split_at(1) [OF s'] pre w
  have ws: "ws = ws'" by simp
  from lot_number_split_at(1) [OF s] lot_number_split_at(1) [OF s'] pre w ws
  have e: "num @ post = num' @ post'" by simp
  have "takeWhile ?dh (num @ post) = num"
    by (rule takeWhile_exact [OF lot_number_splitD(7,8) [OF s]])
  moreover have "takeWhile ?dh (num' @ post') = num'"
    by (rule takeWhile_exact [OF lot_number_splitD(7,8) [OF s']])
  ultimately have num: "num = num'" using e by simp
  with e pre w ws show ?thesis by simp
qed

lemma extract_address_number_split:
  assumes r: "extract_address_number cc (Some a) = Some r"
  shows "\<exists>pre w ws num post. lot_number_split cc a pre w ws num post \<and> r = w @ dong # 32 # num"
proof -
  let ?dh = "\<lambda>x. x = hyphen \<or> is_digit cc x"
  from r obtain g1 g2 where s: "re_search (lot_number_pattern cc) a = Some (g1, g2)"
    and rg: "r = g1 @ [32] @ g2"
    by (auto simp: extract_address_number_def split: if_splits option.splits)
  from re_search_sound [OF s] obtain pre t where a: "a = pre @ t"
    and t: "lot_number_pattern cc t = Some (g1, g2)"
    and lm: "\<forall>i<length pre. lot_number_pattern cc (drop i a) = None" by blast
  from lot_number_pattern_greedy [OF t] obtain w ws c cs where t': "t = w @ dong # ws @ c # cs"
    and w: "w \<noteq> []" "\<forall>x\<in>set w. is_word cc x" and ws: "\<forall>x\<in>set ws. is_space cc x"
    and c: "is_digit cc c" and g: "(g1, g2) = (w @ [dong], takeWhile ?dh (c # cs))"
    and lw: "\<forall>w' ws' c' cs'. t = w' @ dong # ws' @ c' # cs' \<and> (\<forall>x\<in>set w'. is_word cc x)
                   \<and> (\<forall>x\<in>set ws'. is_space cc x) \<and> is_digit cc c'
                 \<longrightarrow> length w' \<le> length w"
    and lws: "\<forall>ws' c' cs'. ws @ c # cs = ws' @ c' # cs' \<and> (\<forall>x\<in>set ws'. is_space cc x)
                   \<and> is_digit cc c'
                 \<longrightarrow> length ws' \<le> length ws"
    by blast
  define num where "num = takeWhile ?dh (c # cs)"
  define post where "post = dropWhile ?dh (c # cs)"
  have split: "c # cs = num @ post" by (simp add: num_def post_def)
  have num: "num \<noteq> []" "is_digit cc (hd num)" "\<forall>x\<in>set num. ?dh x"
    using c by (auto simp: num_def dest: set_takeWhileD)
  have post: "post = [] \<or> \<not> ?dh (hd post)"
    unfolding post_def using hd_dropWhile [of ?dh "c # cs"] by blast
  have left: "\<forall>i<length pre. \<not> lot_number_at cc (drop i a)"
    using lm lot_number_pattern_iff [of cc] by blast
  have a': "a = pre @ w @ dong # ws @ num @ post" using a t' split by simp
  have t'': "w @ dong # ws @ num @ post = t" using t' split by simp
  have ws'': "ws @ num @ post = ws @ c # cs" using split by simp
  have "lot_number_split cc a pre w ws num post"
    by (rule lot_number_splitI [OF a' w ws num post left lw [folded t''] lws [folded ws'']])
  moreover have "r = w @ dong # 32 # num" using rg g by (simp add: num_def)
  ultimately show ?thesis by blast
qed

lemma extract_address_number_None_iff:
  "extract_address_number cc (Some a) = None \<longleftrightarrow> \<not> (\<exists>pre t. a = pre @ t \<and> lot_number_at cc t)"
proof (cases "a = []")
  case True
  then show ?thesis
    by (simp add: extract_address_number_def truthy_def lot_number_at_def)
next
  case False
  then have e: "extract_address_number cc (Some a) = None
                 \<longleftrightarrow> re_search (lot_number_pattern cc) a = None"
    by (auto simp: extract_address_number_def truthy_def split: option.splits)
  show ?thesis
  proof
    assume "extract_address_number cc (Some a) = None"
    with e have n: "re_search (lot_number_pattern cc) a = None" by simp
    show "\<not> (\<exists>pre t. a = pre @ t \<and> lot_number_at cc t)"
    proof
      assume "\<exists>pre t. a = pre @ t \<and> lot_number_at cc t"
      then obtain pre t where "a = pre @ t" "lot_number_at cc t" by blast
      then have "a = pre @ t" "lot_number_pattern cc t \<noteq> None"
        by (simp_all add: lot_number_pattern_complete)
      with re_search_complete [of "lot_number_pattern cc" t pre] n show False by simp
    qed
  next
    assume no: "\<not> (\<exists>pre t. a = pre @ t \<and> lot_number_at cc t)"
    have "re_search (lot_number_pattern cc) a = None"
    proof (rule ccontr)
      assume "re_search (lot_number_pattern cc) a \<noteq> None"
      then obtain r where "re_search (lot_number_pattern cc) a = Some r" by auto
      from re_search_sound [OF this] obtain pre t
        where "a = pre @ t" "lot_number_pattern cc t = Some r" by blast
      then have "a = pre @ t \<and> lot_number_at cc t"
        using lot_number_pattern_iff [of cc t] by simp
      with no show False by blast
    qed
    with e show "extract_address_number cc (Some a) = None" by simp
  qed
qed

text \<open>
  C6, as the code has it. The white space between the dong token and the number is
  optional, and the dong token is the longest one. For every address: no address and the
  empty address give no lot number; the result is absent exactly when at no position of
  the address a dong token is followed by optional white space and a digit; and the
  result is \<open>r\<close> exactly when the address splits as \<^verbatim>\<open>lot_number_split\<close> says (leftmost
  match, longest dong token, longest white space, a digit and every digit and hyphen that
  follows it) and \<open>r\<close> is the dong token and the number joined by one space. The split is
  unique, so it fixes the result.
\<close>

theorem extract_address_number_spec:
  "extract_address_number cc None = None \<and> extract_address_number cc (Some []) = None
   \<and> (extract_address_number cc (Some a) = None
        \<longleftrightarrow> \<not> (\<exists>pre t. a = pre @ t \<and> lot_number_at cc t))
   \<and> (\<forall>r. extract_address_number cc (Some a) = Some r \<longleftrightarrow>
        (\<exists>pre w ws num post. lot_number_split cc a pre w ws num post
           \<and> r = w @ dong # 32 # num))"
proof (intro conjI allI)
  show "extract_address_number cc None = None" "extract_address_number cc (Some []) = None"
    by (simp_all add: extract_address_number_def truthy_def)
next
  show "extract_address_number cc (Some a) = None
          \<longleftrightarrow> \<not> (\<exists>pre t. a = pre @ t \<and> lot_number_at cc t)"
    by (rule extract_address_number_None_iff)
next
  fix r
  show "extract_address_number cc (Some a) = Some r \<longleftrightarrow>
        (\<exists>pre w ws num post. lot_number_split cc a pre w ws num post
           \<and> r = w @ dong # 32 # num)"
  proof
    assume "extract_address_number cc (Some a) = Some r"
    then show "\<exists>pre w ws num post. lot_number_split cc a pre w ws num post
           \<and> r = w @ dong # 32 # num"
      by (rule extract_address_number_split)
  next
    assume "\<exists>pre w ws num post. lot_number_split cc a pre w ws num post
           \<and> r = w @ dong # 32 # num"
    then obtain pre w ws num post where s: "lot_number_split cc a pre w ws num post"
      and r: "r = w @ dong # 32 # num" by blast
    from lot_number_split_at [OF s]
    have "\<exists>pre t. a = pre @ t \<and> lot_number_at cc t" by blast
    with extract_address_number_None_iff [of cc a]
    obtain r' where r': "extract_address_number cc (Some a) = Some r'" by auto
    from extract_address_number_split [OF r'] obtain pre' w' ws' num' post'
      where s': "lot_number_split cc a pre' w' ws' num' post'"
        and e: "r' = w' @ dong # 32 # num'" by blast
    from lot_number_split_unique [OF s s'] r e have "r' = r" by simp
    with r' show "extract_address_number cc (Some a) = Some r" by simp
  qed
qed

lemmas eval_lot_number =
  extract_address_number_def truthy_def lot_number_pattern_def tail_part_def number_part_def
  re_plus_def re_lit_def latin_hangul_def dong_def hyphen_def
  addr_jorye_1807_def addr_no_space_def addr_two_dongs_def jeonnam_def suncheonsi_def joryedong_def

text \<open>
  The registry address "Jeonnam Suncheon-si Jorye-dong 1807" gives "Jorye-dong 1807",
  so the pattern matches somewhere in it. In "Jorye-dong1807-dong 5" two tokens end in
  the syllable dong and a digit follows both; the result keeps the longer token and is
  "Jorye-dong1807-dong 5", not "Jorye-dong 1807".
\<close>

theorem extract_address_number_spec_witness:
  "extract_address_number latin_hangul (Some addr_jorye_1807)
     = Some [51312, 47168, 46041, 32, 49, 56, 48, 55]
   \<and> (\<exists>pre t. addr_jorye_1807 = pre @ t \<and> lot_number_at latin_hangul t)
   \<and> extract_address_number latin_hangul (Some addr_two_dongs)
     = Some [51312, 47168, 46041, 49, 56, 48, 55, 46041, 32, 53]
   \<and> (\<exists>pre w ws num post. lot_number_split latin_hangul addr_two_dongs pre w ws num post
        \<and> [51312, 47168, 46041, 49, 56, 48, 55, 46041, 32, 53] = w @ dong # 32 # num)"
proof -
  have v: "extract_address_number latin_hangul (Some addr_jorye_1807)
             = Some [51312, 47168, 46041, 32, 49, 56, 48, 55]"
    by (simp add: eval_lot_number)
  have v2: "extract_address_number latin_hangul (Some addr_two_dongs)
             = Some [51312, 47168, 46041, 49, 56, 48, 55, 46041, 32, 53]"
    by (simp add: eval_lot_number)
  from extract_address_number_spec [of latin_hangul addr_jorye_1807]
  have "extract_address_number latin_hangul (Some addr_jorye_1807) = None
          \<longleftrightarrow> \<not> (\<exists>pre t. addr_jorye_1807 = pre @ t \<and> lot_number_at latin_hangul t)"
    by (elim conjE)
  with v have "\<exists>pre t. addr_jorye_1807 = pre @ t \<and> lot_number_at latin_hangul t"
    by (simp only: option.distinct simp_thms)
  moreover from extract_address_number_spec [of latin_hangul addr_two_dongs]
  have "\<forall>r. extract_address_number latin_hangul (Some addr_two_dongs) = Some r \<longleftrightarrow>
        (\<exists>pre w ws num post. lot_number_split latin_hangul addr_two_dongs pre w ws num post
           \<and> r = w @ dong # 32 # num)"
    by (elim conjE)
  with v2
  have "\<exists>pre w ws num post. lot_number_split latin_hangul addr_two_dongs pre w ws num post
        \<and> [51312, 47168, 46041, 49, 56, 48, 55, 46041, 32, 53] = w @ dong # 32 # num"
    by blast
  ultimately show ?thesis using v v2 by (intro conjI)
qed

text \<open>
  C6 as it is written fails: "Jorye-dong1807" holds no white space at all, so no dong
  token in it is followed by white space, and a lot number is returned all the same.
\<close>

theorem extract_address_number_no_space_counterexample:
  "extract_address_number latin_hangul (Some addr_no_space)
     = Some [51312, 47168, 46041, 32, 49, 56, 48, 55]
   \<and> \<not> list_ex (is_space latin_hangul) addr_no_space"
  by (simp add: eval_lot_number)

section \<open>Scores of a pair\<close>

lemma take_if_better_eq:
  "take_if_better n s best = (if 60 \<le> s \<and> snd best < s then (Some n, s) else best)"
  by (auto simp: take_if_better_def)

lemma lot_step_fst: "fst (lot_step cc ch e best) = pair_score cc ch e"
  by (cases e) (simp add: pair_score_def lot_step_def Let_def)

lemma lot_step_snd: "snd (lot_step cc ch e best) = take_if_better (fst e) (pair_score cc ch e) best"
  by (cases e) (auto simp: pair_score_def lot_step_def Let_def take_if_better_def)

lemma dong_gate:
  assumes "charger_dong cc ch \<noteq> Some (lot_dong info)"
    and "\<not> (contains lot_name munhwageongang \<and> contains (charger_name ch) munhwageongang
            \<and> (contains (charger_address ch) suyeongjang \<or> contains (lot_address info) suyeongjang))"
  shows "lot_step cc ch (lot_name, info) best = (0, best)"
  using assms by (auto simp: lot_step_def Let_def)

text \<open>
  C2. A pair whose two names hold "culture and health" and whose dongs differ: when
  either normalised address holds "swimming pool" the score is 70, the lot becomes the
  best match exactly when 70 is at least 60 and above the best score so far, and the
  iteration ends there, whatever the other rules would give; when neither address holds
  "swimming pool" the pair ends with score 0 and the best match as it was.
\<close>

theorem special_case_score:
  assumes "contains lot_name munhwageongang" and "contains (charger_name ch) munhwageongang"
    and "charger_dong cc ch \<noteq> Some (lot_dong info)"
  shows "(contains (charger_address ch) suyeongjang \<or> contains (lot_address info) suyeongjang
            \<longrightarrow> lot_step cc ch (lot_name, info) best
                  = (70, if 60 \<le> (70::int) \<and> snd best < 70 then (Some lot_name, 70) else best))
       \<and> (\<not> (contains (charger_address ch) suyeongjang \<or> contains (lot_address info) suyeongjang)
            \<longrightarrow> lot_step cc ch (lot_name, info) best = (0, best))"
  using assms by (auto simp: lot_step_def Let_def take_if_better_def)

text \<open>
  C3, as the code has it. A pair whose dongs agree, whose normalised addresses differ,
  whose lot numbers are both there and equal and whose name test holds gets 80 from the
  lot-number rule, and the substring rule that follows adds 60 when the lot's lot number
  occurs in the charger's address: the score is 140 then, and 80 only when it does not
  occur.
\<close>

theorem lot_number_equality_score:
  assumes "charger_dong cc ch = Some (lot_dong info)"
    and "lot_address info \<noteq> charger_address ch"
    and "truthy (charger_address_number cc ch)" and "truthy (lot_address_number info)"
    and "charger_address_number cc ch = lot_address_number info"
    and "lot_name_in_charger lot_name (charger_name ch) \<or> keyword_match cc lot_name (charger_name ch)"
  shows "pair_score cc ch (lot_name, info)
           = (if contains (charger_address ch) (the (lot_address_number info)) then 140 else 80)"
  using assms by (auto simp: pair_score_def lot_step_def Let_def)

lemmas eval_strings =
  startswith_def truthy_def jeollanamdo_def jeonnam_def joryedong_def suncheonsi_def
  seokhyeondong_def addr_jorye_1807_def addr_seokhyeon_def name_sumaegol_def name_pool_def
  munhwageongang_def suyeongjang_def geupsok_def wansok_def muryo_def marker_dc_def marker_ac_def
  iyongbulga_def get_or_empty_def

lemmas eval_regex =
  lot_number_pattern_def tail_part_def number_part_def dong_pattern_def
  re_plus_def re_lit_def latin_hangul_def dong_def hyphen_def
  extract_address_number_def extract_dong_from_address_def normalize_address_def

lemmas eval_chargers =
  ch_sumaegol_def ch_sumaegol_wide_def ch_slow_def ch_center_def ch_nowhere_def
  info_sumaegol_def info_pool_def charger_address_def charger_dong_def charger_address_number_def

lemma ex_dong [simp]:
  "charger_dong latin_hangul ch_sumaegol = Some joryedong"
  "charger_dong latin_hangul ch_sumaegol_wide = Some joryedong"
  "charger_dong latin_hangul ch_slow = Some joryedong"
  "charger_dong latin_hangul ch_center = None"
  "charger_dong latin_hangul ch_nowhere = None"
  by (simp_all add: eval_chargers eval_regex eval_strings)

lemma ex_number [simp]:
  "charger_address_number latin_hangul ch_sumaegol = Some (joryedong @ [32, 49, 56, 48, 55])"
  "charger_address_number latin_hangul ch_sumaegol_wide = Some (joryedong @ [32, 49, 56, 48, 55])"
  "charger_address_number latin_hangul ch_slow = Some (joryedong @ [32, 49, 56, 48, 55])"
  "charger_address_number latin_hangul ch_center = None"
  "charger_address_number latin_hangul ch_nowhere = None"
  by (simp_all add: eval_chargers eval_regex eval_strings)


text \<open>
  The centre's charger against the pool lot: 70 and the new best match from nothing, 70
  and no change against a best score of 80; and 0 for the charger whose address holds no
  swimming pool.
\<close>

theorem special_case_score_witness:
  "contains name_pool munhwageongang \<and> contains (charger_name ch_center) munhwageongang
   \<and> charger_dong latin_hangul ch_center \<noteq> Some (lot_dong info_pool)
   \<and> contains (charger_address ch_center) suyeongjang
   \<and> lot_step latin_hangul ch_center (name_pool, info_pool) (None, 0) = (70, Some name_pool, 70)
   \<and> lot_step latin_hangul ch_center (name_pool, info_pool) (Some name_sumaegol, 80)
        = (70, Some name_sumaegol, 80)
   \<and> \<not> contains (charger_address ch_center_far) suyeongjang
   \<and> \<not> contains (lot_address info_pool) suyeongjang
   \<and> lot_step latin_hangul ch_center_far (name_pool, info_pool) (None, 0) = (0, None, 0)"
proof -
  have n: "contains name_pool munhwageongang" "contains (charger_name ch_center) munhwageongang"
    "contains (charger_name ch_center_far) munhwageongang"
    by (simp_all add: ch_center_far_def ch_center_def eval_strings)
  have d: "charger_dong latin_hangul ch_center \<noteq> Some (lot_dong info_pool)"
    "charger_dong latin_hangul ch_center_far \<noteq> Some (lot_dong info_pool)"
    by (simp_all add: ch_center_far_def eval_chargers eval_regex eval_strings)
  have p: "contains (charger_address ch_center) suyeongjang"
    "\<not> contains (charger_address ch_center_far) suyeongjang"
    "\<not> contains (lot_address info_pool) suyeongjang"
    by (simp_all add: ch_center_far_def eval_chargers eval_regex eval_strings)
  from special_case_score [OF n(1) n(2) d(1), of "(None, 0)"]
    special_case_score [OF n(1) n(2) d(1), of "(Some name_sumaegol, 80)"]
    special_case_score [OF n(1) n(3) d(2), of "(None, 0)"] n d p
  show ?thesis by simp
qed

lemma ex_names:
  "keyword_match latin_hangul name_sumaegol (charger_name ch_sumaegol)"
  "keyword_match latin_hangul name_sumaegol (charger_name ch_sumaegol_wide)"
  by (simp_all add: keyword_match_def lot_name_keywords_def str_split_def common_words_def
        eval_chargers eval_strings latin_hangul_def)

lemma ex_addresses:
  "lot_address info_sumaegol \<noteq> charger_address ch_sumaegol"
  "lot_address info_sumaegol \<noteq> charger_address ch_sumaegol_wide"
  "contains (charger_address ch_sumaegol) (joryedong @ [32, 49, 56, 48, 55])"
  "\<not> contains (charger_address ch_sumaegol_wide) (joryedong @ [32, 49, 56, 48, 55])"
  by (simp_all add: eval_chargers eval_regex eval_strings)

text \<open>
  The Sumaegol charger with two spaces before the number scores 80 against the Sumaegol
  lot, the one with a single space 140.
\<close>

theorem lot_number_equality_score_witness:
  "pair_score latin_hangul ch_sumaegol_wide (name_sumaegol, info_sumaegol) = 80
   \<and> pair_score latin_hangul ch_sumaegol (name_sumaegol, info_sumaegol) = 140"
  using lot_number_equality_score [of latin_hangul ch_sumaegol_wide info_sumaegol name_sumaegol]
    lot_number_equality_score [of latin_hangul ch_sumaegol info_sumaegol name_sumaegol]
    ex_names ex_addresses
  by (simp add: info_sumaegol_def truthy_def joryedong_def)

text \<open>
  C3 as it is written fails on the Sumaegol charger at "Suncheon-si Jorye-dong 1807": all
  its conditions hold and the score is 140.
\<close>

theorem lot_number_equality_score_counterexample:
  "charger_dong latin_hangul ch_sumaegol = Some (lot_dong info_sumaegol)
   \<and> lot_address info_sumaegol \<noteq> charger_address ch_sumaegol
   \<and> truthy (charger_address_number latin_hangul ch_sumaegol)
   \<and> truthy (lot_address_number info_sumaegol)
   \<and> charger_address_number latin_hangul ch_sumaegol = lot_address_number info_sumaegol
   \<and> keyword_match latin_hangul name_sumaegol (charger_name ch_sumaegol)
   \<and> pair_score latin_hangul ch_sumaegol (name_sumaegol, info_sumaegol) = 140
   \<and> pair_score latin_hangul ch_sumaegol (name_sumaegol, info_sumaegol) \<noteq> 80"
proof -
  have "pair_score latin_hangul ch_sumaegol (name_sumaegol, info_sumaegol) = 140"
    using ex_names ex_addresses
    by (simp add: pair_score_def lot_step_def Let_def info_sumaegol_def truthy_def
          lot_name_in_charger_def joryedong_def)
  then show ?thesis using ex_names ex_addresses
    by (simp add: info_sumaegol_def truthy_def joryedong_def)
qed

section \<open>The best lot of a charger\<close>

lemma best_lot_snoc:
  "best_lot cc (pd @ [e]) ch = take_if_better (fst e) (pair_score cc ch e) (best_lot cc pd ch)"
  by (simp add: best_lot_def lot_step_snd)

lemma best_lot_cases:
  "(best_lot cc pd ch = (None, 0) \<and> (\<forall>x\<in>set pd. pair_score cc ch x < 60))
   \<or> (\<exists>pre e post. pd = pre @ e # post
         \<and> best_lot cc pd ch = (Some (fst e), pair_score cc ch e)
         \<and> 60 \<le> pair_score cc ch e
         \<and> (\<forall>x\<in>set pre. pair_score cc ch x < pair_score cc ch e)
         \<and> (\<forall>x\<in>set post. pair_score cc ch x \<le> pair_score cc ch e))"
proof (induction pd rule: rev_induct)
  case Nil
  then show ?case by (simp add: best_lot_def)
next
  case (snoc y pd)
  let ?sc = "pair_score cc ch"
  show ?case
  proof (cases "60 \<le> ?sc y \<and> snd (best_lot cc pd ch) < ?sc y")
    case True
    then have b: "best_lot cc (pd @ [y]) ch = (Some (fst y), ?sc y)"
      by (simp add: best_lot_snoc take_if_better_eq)
    have "\<forall>x\<in>set pd. ?sc x < ?sc y"
      using snoc.IH True by (fastforce)
    with b True have "pd @ [y] = pd @ y # [] \<and> best_lot cc (pd @ [y]) ch = (Some (fst y), ?sc y)
        \<and> 60 \<le> ?sc y \<and> (\<forall>x\<in>set pd. ?sc x < ?sc y) \<and> (\<forall>x\<in>set []. ?sc x \<le> ?sc y)"
      by simp
    then show ?thesis by blast
  next
    case False
    then have b: "best_lot cc (pd @ [y]) ch = best_lot cc pd ch"
      unfolding best_lot_snoc take_if_better_eq by (simp only: if_False)
    from snoc.IH show ?thesis
    proof
      assume a: "best_lot cc pd ch = (None, 0) \<and> (\<forall>x\<in>set pd. ?sc x < 60)"
      with False have "?sc y < 60" by auto
      with a b show ?thesis by simp
    next
      assume "\<exists>pre e post. pd = pre @ e # post
         \<and> best_lot cc pd ch = (Some (fst e), ?sc e) \<and> 60 \<le> ?sc e
         \<and> (\<forall>x\<in>set pre. ?sc x < ?sc e) \<and> (\<forall>x\<in>set post. ?sc x \<le> ?sc e)"
      then obtain pre e post where d: "pd = pre @ e # post"
        "best_lot cc pd ch = (Some (fst e), ?sc e)" "60 \<le> ?sc e"
        "\<forall>x\<in>set pre. ?sc x < ?sc e" "\<forall>x\<in>set post. ?sc x \<le> ?sc e" by blast
      with False have "?sc y \<le> ?sc e" by auto
      with d b have "pd @ [y] = pre @ e # (post @ [y])
          \<and> best_lot cc (pd @ [y]) ch = (Some (fst e), ?sc e) \<and> 60 \<le> ?sc e
          \<and> (\<forall>x\<in>set pre. ?sc x < ?sc e) \<and> (\<forall>x\<in>set (post @ [y]). ?sc x \<le> ?sc e)"
        by simp
      then show ?thesis by blast
    qed
  qed
qed

lemma best_lot_SomeD:
  assumes "fst (best_lot cc pd ch) = Some l"
  shows "\<exists>pre e post. pd = pre @ e # post \<and> fst e = l
           \<and> best_lot cc pd ch = (Some l, pair_score cc ch e) \<and> 60 \<le> pair_score cc ch e
           \<and> (\<forall>x\<in>set pre. pair_score cc ch x < pair_score cc ch e)
           \<and> (\<forall>x\<in>set post. pair_score cc ch x \<le> pair_score cc ch e)"
proof -
  from best_lot_cases [of cc pd ch] assms obtain pre e post where d: "pd = pre @ e # post"
    "best_lot cc pd ch = (Some (fst e), pair_score cc ch e)" "60 \<le> pair_score cc ch e"
    "\<forall>x\<in>set pre. pair_score cc ch x < pair_score cc ch e"
    "\<forall>x\<in>set post. pair_score cc ch x \<le> pair_score cc ch e"
    by auto
  with assms have "fst e = l" by simp
  with d show ?thesis by blast
qed

lemma best_lot_None:
  "(\<forall>x\<in>set pd. pair_score cc ch x < 60) \<Longrightarrow> best_lot cc pd ch = (None, 0)"
  using best_lot_cases [of cc pd ch] by fastforce

lemma best_lot_None_iff:
  "best_lot cc pd ch = (None, 0) \<longleftrightarrow> (\<forall>x\<in>set pd. pair_score cc ch x < 60)"
proof
  assume "best_lot cc pd ch = (None, 0)"
  with best_lot_cases [of cc pd ch] show "\<forall>x\<in>set pd. pair_score cc ch x < 60" by auto
qed (rule best_lot_None)

lemma fold_lot_step_below:
  "(\<forall>x\<in>set xs. pair_score cc ch x < t) \<Longrightarrow> snd b < t \<Longrightarrow>
     snd (fold (\<lambda>entry best. snd (lot_step cc ch entry best)) xs b) < t"
proof (induction xs arbitrary: b)
  case Nil
  then show ?case by simp
next
  case (Cons x xs)
  from Cons.prems have "snd (snd (lot_step cc ch x b)) < t"
    by (simp add: lot_step_snd take_if_better_eq)
  with Cons.IH [of "snd (lot_step cc ch x b)"] Cons.prems show ?case by simp
qed

lemma fold_lot_step_keep:
  "(\<forall>x\<in>set xs. pair_score cc ch x \<le> snd b) \<Longrightarrow>
     fold (\<lambda>entry best. snd (lot_step cc ch entry best)) xs b = b"
proof (induction xs)
  case Nil
  then show ?case by simp
next
  case (Cons x xs)
  from Cons.prems have "snd (lot_step cc ch x b) = b"
    by (simp add: lot_step_snd take_if_better_eq)
  with Cons show ?case by simp
qed

lemma best_lot_first_highest:
  assumes "pd = pre @ e # post" and "60 \<le> pair_score cc ch e"
    and "\<forall>x\<in>set pre. pair_score cc ch x < pair_score cc ch e"
    and "\<forall>x\<in>set post. pair_score cc ch x \<le> pair_score cc ch e"
  shows "best_lot cc pd ch = (Some (fst e), pair_score cc ch e)"
proof -
  let ?f = "\<lambda>entry best. snd (lot_step cc ch entry best)"
  let ?b = "fold ?f pre (None, 0)"
  have "snd ?b < pair_score cc ch e"
    using assms(2,3) by (intro fold_lot_step_below) simp_all
  with assms(2) have e: "?f e ?b = (Some (fst e), pair_score cc ch e)"
    by (simp add: lot_step_snd take_if_better_eq)
  have "best_lot cc pd ch = fold ?f post (?f e ?b)"
    by (simp add: best_lot_def assms(1))
  also have "\<dots> = (Some (fst e), pair_score cc ch e)"
    unfolding e using assms(4) by (intro fold_lot_step_keep) simp
  finally show ?thesis .
qed

lemma best_lot_Some_iff:
  "best_lot cc pd ch = (Some l, s) \<longleftrightarrow>
     (\<exists>pre e post. pd = pre @ e # post \<and> fst e = l \<and> s = pair_score cc ch e
        \<and> 60 \<le> pair_score cc ch e
        \<and> (\<forall>x\<in>set pre. pair_score cc ch x < pair_score cc ch e)
        \<and> (\<forall>x\<in>set post. pair_score cc ch x \<le> pair_score cc ch e))"
proof
  assume a: "best_lot cc pd ch = (Some l, s)"
  then have "fst (best_lot cc pd ch) = Some l" by simp
  from best_lot_SomeD [OF this] a
  show "\<exists>pre e post. pd = pre @ e # post \<and> fst e = l \<and> s = pair_score cc ch e
        \<and> 60 \<le> pair_score cc ch e
        \<and> (\<forall>x\<in>set pre. pair_score cc ch x < pair_score cc ch e)
        \<and> (\<forall>x\<in>set post. pair_score cc ch x \<le> pair_score cc ch e)"
    by auto
next
  assume "\<exists>pre e post. pd = pre @ e # post \<and> fst e = l \<and> s = pair_score cc ch e
        \<and> 60 \<le> pair_score cc ch e
        \<and> (\<forall>x\<in>set pre. pair_score cc ch x < pair_score cc ch e)
        \<and> (\<forall>x\<in>set post. pair_score cc ch x \<le> pair_score cc ch e)"
  then obtain pre e post where d: "pd = pre @ e # post" "fst e = l" "s = pair_score cc ch e"
    "60 \<le> pair_score cc ch e" "\<forall>x\<in>set pre. pair_score cc ch x < pair_score cc ch e"
    "\<forall>x\<in>set post. pair_score cc ch x \<le> pair_score cc ch e" by blast
  from best_lot_first_highest [OF d(1,4,5,6)] d(2,3)
  show "best_lot cc pd ch = (Some l, s)" by simp
qed

lemma best_lot_in_dict:
  assumes "fst (best_lot cc pd ch) = Some l"
  shows "\<exists>info. (l, info) \<in> set pd \<and> 60 \<le> pair_score cc ch (l, info)
           \<and> snd (best_lot cc pd ch) = pair_score cc ch (l, info)"
proof -
  from best_lot_SomeD [OF assms] obtain pre e post where "pd = pre @ e # post" "fst e = l"
    "best_lot cc pd ch = (Some l, pair_score cc ch e)" "60 \<le> pair_score cc ch e" by blast
  then show ?thesis by (cases e) auto
qed

section \<open>The index of the registry\<close>

lemma set_update_subset: "set (AList.update k v al) \<subseteq> insert (k, v) (set al)"
  by (induction al) auto

lemma index_lot_InrD:
  assumes "index_lot cc dn l pd = Inr pd'"
  shows "\<exists>v. pd' = AList.update (lot_name_of l) v pd \<and> lot_dong v = dn"
  using assms by (cases l) (auto simp: index_lot_def)

lemma index_lots_entries:
  "index_lots cc dn lots pd = Inr pd' \<Longrightarrow> (n, info) \<in> set pd' \<Longrightarrow>
     (n, info) \<in> set pd \<or> (n \<in> lot_name_of ` set lots \<and> lot_dong info = dn)"
proof (induction lots arbitrary: pd)
  case Nil
  then show ?case by simp
next
  case (Cons l lots)
  from Cons.prems(1) obtain d where d: "index_lot cc dn l pd = Inr d"
    and r: "index_lots cc dn lots d = Inr pd'" by (auto split: sum.splits)
  from index_lot_InrD [OF d] obtain v where v: "d = AList.update (lot_name_of l) v pd"
    "lot_dong v = dn" by blast
  from Cons.IH [OF r Cons.prems(2)]
  have "(n, info) \<in> set d \<or> (n \<in> lot_name_of ` set lots \<and> lot_dong info = dn)" .
  with set_update_subset [of "lot_name_of l" v pd] v show ?case by auto
qed

lemma index_dongs_entries:
  "index_dongs cc reg pd = Inr pd' \<Longrightarrow> (n, info) \<in> set pd' \<Longrightarrow>
     (n, info) \<in> set pd
     \<or> (\<exists>(dn, lots)\<in>set reg. n \<in> lot_name_of ` set lots \<and> lot_dong info = dn)"
proof (induction reg arbitrary: pd)
  case Nil
  then show ?case by simp
next
  case (Cons g reg)
  from Cons.prems(1) obtain d where d: "index_lots cc (fst g) (snd g) pd = Inr d"
    and r: "index_dongs cc reg d = Inr pd'" by (auto split: sum.splits)
  from Cons.IH [OF r Cons.prems(2)]
  have "(n, info) \<in> set d
        \<or> (\<exists>(dn, lots)\<in>set reg. n \<in> lot_name_of ` set lots \<and> lot_dong info = dn)" .
  with index_lots_entries [OF d, of n info] show ?case by (cases g) auto
qed

lemma build_parking_dict_entries:
  "build_parking_dict cc reg = Inr pd \<Longrightarrow> (n, info) \<in> set pd \<Longrightarrow>
     \<exists>(dn, lots)\<in>set reg. n \<in> lot_name_of ` set lots \<and> lot_dong info = dn"
  using index_dongs_entries [of cc reg "[]" pd n info] by (simp add: build_parking_dict_def)

lemma set_first_occurrences: "set (first_occurrences xs) = set xs"
  by (induction xs) auto

lemma distinct_first_occurrences: "distinct (first_occurrences xs)"
  by (induction xs) (simp_all add: set_first_occurrences)

lemma first_occurrences_distinct: "distinct xs \<Longrightarrow> first_occurrences xs = xs"
proof (induction xs)
  case Nil
  then show ?case by simp
next
  case (Cons x xs)
  then have "filter (\<lambda>y. y \<noteq> x) xs = xs" by (intro filter_True) auto
  with Cons show ?case by simp
qed

lemma first_occurrences_append:
  "first_occurrences (xs @ ys)
     = first_occurrences xs @ filter (\<lambda>y. y \<notin> set xs) (first_occurrences ys)"
proof (induction xs)
  case Nil
  then show ?case by simp
next
  case (Cons x xs)
  have "filter (\<lambda>y. y \<noteq> x) (filter (\<lambda>y. y \<notin> set xs) (first_occurrences ys))
          = filter (\<lambda>y. y \<notin> set (x # xs)) (first_occurrences ys)"
    by (auto intro: filter_cong)
  with Cons show ?case by simp
qed

lemma index_lots_keys:
  "index_lots cc dn lots pd = Inr pd' \<Longrightarrow>
     map fst pd'
       = map fst pd @ filter (\<lambda>n. n \<notin> set (map fst pd)) (first_occurrences (map lot_name_of lots))"
proof (induction lots arbitrary: pd)
  case Nil
  then show ?case by simp
next
  case (Cons l lots)
  let ?k = "lot_name_of l"
  let ?fo = "first_occurrences (map lot_name_of lots)"
  from Cons.prems obtain d where d: "index_lot cc dn l pd = Inr d"
    and r: "index_lots cc dn lots d = Inr pd'" by (auto split: sum.splits)
  from index_lot_InrD [OF d] obtain v where v: "d = AList.update ?k v pd" by blast
  from Cons.IH [OF r]
  have ih: "map fst pd' = map fst d @ filter (\<lambda>n. n \<notin> set (map fst d)) ?fo" .
  show ?case
  proof (cases "?k \<in> set (map fst pd)")
    case True
    then have k: "map fst d = map fst pd" by (simp add: v update_keys)
    have "filter (\<lambda>n. n \<notin> set (map fst pd)) (filter (\<lambda>y. y \<noteq> ?k) ?fo)
            = filter (\<lambda>n. n \<notin> set (map fst pd)) ?fo"
      using True by (auto intro: filter_cong)
    with ih k True show ?thesis by simp
  next
    case False
    then have k: "map fst d = map fst pd @ [?k]" by (simp add: v update_keys)
    have "filter (\<lambda>n. n \<notin> set (map fst pd)) (filter (\<lambda>y. y \<noteq> ?k) ?fo)
            = filter (\<lambda>n. n \<notin> set (map fst pd @ [?k])) ?fo"
      by (auto intro: filter_cong)
    with ih k False show ?thesis by simp
  qed
qed

lemma index_dongs_keys:
  "index_dongs cc reg pd = Inr pd' \<Longrightarrow>
     map fst pd'
       = map fst pd @ filter (\<lambda>n. n \<notin> set (map fst pd)) (first_occurrences (registry_names reg))"
proof (induction reg arbitrary: pd)
  case Nil
  then show ?case by (simp add: registry_names_def)
next
  case (Cons g reg)
  let ?a = "map lot_name_of (snd g)"
  from Cons.prems obtain d where d: "index_lots cc (fst g) (snd g) pd = Inr d"
    and r: "index_dongs cc reg d = Inr pd'" by (auto split: sum.splits)
  have n: "registry_names (g # reg) = ?a @ registry_names reg"
    by (simp add: registry_names_def)
  have kd: "map fst d = map fst pd @ filter (\<lambda>n. n \<notin> set (map fst pd)) (first_occurrences ?a)"
    using index_lots_keys [OF d] .
  then have sd: "set (map fst d) = set (map fst pd) \<union> set ?a"
    by (auto simp: set_first_occurrences)
  have "filter (\<lambda>n. n \<notin> set (map fst d)) (first_occurrences (registry_names reg))
          = filter (\<lambda>n. n \<notin> set (map fst pd))
              (filter (\<lambda>y. y \<notin> set ?a) (first_occurrences (registry_names reg)))"
    unfolding sd by (auto intro: filter_cong)
  with Cons.IH [OF r] kd show ?case
    unfolding n first_occurrences_append by simp
qed

lemma build_parking_dict_keys:
  "build_parking_dict cc reg = Inr pd \<Longrightarrow> map fst pd = first_occurrences (registry_names reg)"
  using index_dongs_keys [of cc reg "[]" pd] by (simp add: build_parking_dict_def)

lemma distinct_build_parking_dict:
  "build_parking_dict cc reg = Inr pd \<Longrightarrow> distinct (map fst pd)"
  by (simp add: build_parking_dict_keys distinct_first_occurrences)

section \<open>The result of the matching\<close>

lemma matched_to_snoc:
  "matched_to cc pd (chs @ [c]) l
     = matched_to cc pd chs l @ (if l \<noteq> [] \<and> fst (best_lot cc pd c) = Some l then [c] else [])"
  by (simp add: matched_to_def)

lemma charger_step_unmatched:
  assumes "\<not> truthy (fst (best_lot cc pd c))"
  shows "charger_step cc pd c m = Inr m" "matched_to cc pd (chs @ [c]) l = matched_to cc pd chs l"
  using assms by (auto simp: charger_step_def matched_to_snoc truthy_def)

lemma charger_step_matched:
  assumes "charger_step cc pd c m = Inr m'" and "fst (best_lot cc pd c) = Some k" and "k \<noteq> []"
  shows "\<exists>en. make_entry c = Inr en
           \<and> map_of m' = (map_of m)(k \<mapsto>
               (case map_of m k of
                  None \<Rightarrow> \<lparr> has_charger = True, chargers = [en] \<rparr>
                | Some w \<Rightarrow> w\<lparr> chargers := chargers w @ [en] \<rparr>))
           \<and> (distinct (map fst m) \<longrightarrow> distinct (map fst m'))"
proof -
  define m1 where "m1 = (if map_of m k = None
      then AList.update k \<lparr> has_charger = True, chargers = [] \<rparr> m else m)"
  have t: "truthy (fst (best_lot cc pd c))" using assms(2,3) by (simp add: truthy_def)
  from assms(1) t assms(2) obtain en v0 where en: "make_entry c = Inr en"
    and v0: "map_of m1 k = Some v0"
    and m': "m' = AList.update k (v0\<lparr> chargers := chargers v0 @ [en] \<rparr>) m1"
    by (auto simp: charger_step_def Let_def m1_def split: sum.splits option.splits cong: if_cong)
  have d: "distinct (map fst m) \<longrightarrow> distinct (map fst m')"
    by (simp add: m' m1_def distinct_update)
  show ?thesis
  proof (cases "map_of m k")
    case None
    with v0 have "v0 = \<lparr> has_charger = True, chargers = [] \<rparr>"
      by (simp add: m1_def update_conv')
    with None have "map_of m' = (map_of m)(k \<mapsto> \<lparr> has_charger = True, chargers = [en] \<rparr>)"
      by (simp add: m' m1_def update_conv')
    with en d None show ?thesis by simp
  next
    case (Some w)
    with v0 have "v0 = w" by (simp add: m1_def)
    with Some have "map_of m' = (map_of m)(k \<mapsto> w\<lparr> chargers := chargers w @ [en] \<rparr>)"
      by (simp add: m' m1_def update_conv')
    with en d Some show ?thesis by simp
  qed
qed

lemma charger_step_result:
  assumes s: "charger_step cc pd c m = Inr m'"
    and d: "distinct (map fst m)"
    and n: "\<forall>l. map_of m l = None \<longleftrightarrow> matched_to cc pd seen l = []"
    and v: "\<forall>l v. map_of m l = Some v \<longrightarrow>
              has_charger v \<and> map Inr (chargers v) = map make_entry (matched_to cc pd seen l)"
  shows "distinct (map fst m')"
    and "\<forall>l. map_of m' l = None \<longleftrightarrow> matched_to cc pd (seen @ [c]) l = []"
    and "\<forall>l v. map_of m' l = Some v \<longrightarrow>
           has_charger v \<and> map Inr (chargers v) = map make_entry (matched_to cc pd (seen @ [c]) l)"
proof -
  have "distinct (map fst m')
    \<and> (\<forall>l. map_of m' l = None \<longleftrightarrow> matched_to cc pd (seen @ [c]) l = [])
    \<and> (\<forall>l v. map_of m' l = Some v \<longrightarrow>
           has_charger v \<and> map Inr (chargers v) = map make_entry (matched_to cc pd (seen @ [c]) l))"
  proof (cases "truthy (fst (best_lot cc pd c))")
    case False
    from charger_step_unmatched(1) [OF False] s have "m' = m" by simp
    with charger_step_unmatched(2) [OF False] d n v show ?thesis by simp
  next
    case True
    then obtain k where k: "fst (best_lot cc pd c) = Some k" "k \<noteq> []"
      by (auto simp: truthy_def)
    from charger_step_matched [OF s k] d obtain en where en: "make_entry c = Inr en"
      and m': "map_of m' = (map_of m)(k \<mapsto>
               (case map_of m k of
                  None \<Rightarrow> \<lparr> has_charger = True, chargers = [en] \<rparr>
                | Some w \<Rightarrow> w\<lparr> chargers := chargers w @ [en] \<rparr>))"
      and d': "distinct (map fst m')" by blast
    have other: "matched_to cc pd (seen @ [c]) l = matched_to cc pd seen l" if "l \<noteq> k" for l
      using that k by (auto simp: matched_to_snoc)
    have this_one: "matched_to cc pd (seen @ [c]) k = matched_to cc pd seen k @ [c]"
      using k by (simp add: matched_to_snoc)
    have a: "map_of m' l = None \<longleftrightarrow> matched_to cc pd (seen @ [c]) l = []" for l
    proof (cases "l = k")
      case True
      then show ?thesis by (simp add: m' this_one)
    next
      case False
      with n other [OF False] show ?thesis by (simp add: m')
    qed
    have b: "has_charger w \<and> map Inr (chargers w) = map make_entry (matched_to cc pd (seen @ [c]) l)"
      if w: "map_of m' l = Some w" for l w
    proof (cases "l = k")
      case False
      with w have "map_of m l = Some w" by (simp add: m')
      with v other [OF False] show ?thesis by simp
    next
      case True
      show ?thesis
      proof (cases "map_of m k")
        case None
        with n have "matched_to cc pd seen k = []" by simp
        moreover from None w True have "w = \<lparr> has_charger = True, chargers = [en] \<rparr>"
          by (simp add: m')
        ultimately show ?thesis using True en by (simp add: this_one)
      next
        case (Some w0)
        with v have "has_charger w0"
          "map Inr (chargers w0) = map make_entry (matched_to cc pd seen k)" by auto
        moreover from Some w True have "w = w0\<lparr> chargers := chargers w0 @ [en] \<rparr>"
          by (simp add: m')
        ultimately show ?thesis using True en by (simp add: this_one)
      qed
    qed
    from d' a b show ?thesis by blast
  qed
  then show "distinct (map fst m')"
    and "\<forall>l. map_of m' l = None \<longleftrightarrow> matched_to cc pd (seen @ [c]) l = []"
    and "\<forall>l v. map_of m' l = Some v \<longrightarrow>
           has_charger v \<and> map Inr (chargers v) = map make_entry (matched_to cc pd (seen @ [c]) l)"
    by blast+
qed

lemma match_loop_result:
  assumes "match_loop cc pd chs m = Inr m'"
    and "distinct (map fst m)"
    and "\<forall>l. map_of m l = None \<longleftrightarrow> matched_to cc pd seen l = []"
    and "\<forall>l v. map_of m l = Some v \<longrightarrow>
              has_charger v \<and> map Inr (chargers v) = map make_entry (matched_to cc pd seen l)"
  shows "distinct (map fst m')
    \<and> (\<forall>l. map_of m' l = None \<longleftrightarrow> matched_to cc pd (seen @ chs) l = [])
    \<and> (\<forall>l v. map_of m' l = Some v \<longrightarrow>
           has_charger v \<and> map Inr (chargers v) = map make_entry (matched_to cc pd (seen @ chs) l))"
  using assms
proof (induction chs arbitrary: m seen)
  case Nil
  then show ?case by simp
next
  case (Cons c chs)
  from Cons.prems(1) obtain m1 where s: "charger_step cc pd c m = Inr m1"
    and r: "match_loop cc pd chs m1 = Inr m'" by (auto split: sum.splits)
  from Cons.IH [OF r charger_step_result [OF s Cons.prems(2,3,4)]]
  show ?case by simp
qed

lemma match_InrD:
  assumes "match_charger_to_parking_lot cc chs reg = Inr m"
  shows "\<exists>pd. build_parking_dict cc reg = Inr pd \<and> match_loop cc pd chs [] = Inr m"
  using assms by (auto simp: match_charger_to_parking_lot_def split: sum.splits)

lemma match_result:
  assumes "build_parking_dict cc reg = Inr pd"
    and "match_charger_to_parking_lot cc chs reg = Inr m"
  shows "distinct (map fst m)"
    and "\<forall>l. map_of m l = None \<longleftrightarrow> matched_to cc pd chs l = []"
    and "\<forall>l v. map_of m l = Some v \<longrightarrow>
           has_charger v \<and> map Inr (chargers v) = map make_entry (matched_to cc pd chs l)"
proof -
  from assms have "match_loop cc pd chs [] = Inr m"
    by (simp add: match_charger_to_parking_lot_def)
  from match_loop_result [OF this, of "[]"]
  show "distinct (map fst m)"
    and "\<forall>l. map_of m l = None \<longleftrightarrow> matched_to cc pd chs l = []"
    and "\<forall>l v. map_of m l = Some v \<longrightarrow>
           has_charger v \<and> map Inr (chargers v) = map make_entry (matched_to cc pd chs l)"
    by (simp_all add: matched_to_def)
qed

lemma match_entries:
  assumes "build_parking_dict cc reg = Inr pd"
    and "match_charger_to_parking_lot cc chs reg = Inr m"
    and "(l, v) \<in> set m" and "en \<in> set (chargers v)"
  shows "\<exists>c\<in>set chs. make_entry c = Inr en \<and> fst (best_lot cc pd c) = Some l"
proof -
  from match_result(1) [OF assms(1,2)] assms(3) have "map_of m l = Some v" by simp
  with match_result(3) [OF assms(1,2)]
  have "map Inr (chargers v) = map make_entry (matched_to cc pd chs l)" by blast
  then have "set (map Inr (chargers v)) = set (map make_entry (matched_to cc pd chs l))"
    by (simp only:)
  then have e: "Inr ` set (chargers v) = make_entry ` set (matched_to cc pd chs l)"
    by (simp only: set_map)
  from assms(4) have "(Inr en :: error + charger_entry) \<in> Inr ` set (chargers v)" by simp
  then have "Inr en \<in> make_entry ` set (matched_to cc pd chs l)" unfolding e .
  then obtain c where "c \<in> set (matched_to cc pd chs l)" "make_entry c = Inr en" by auto
  then show ?thesis by (auto simp: matched_to_def)
qed

lemma match_keys:
  assumes "build_parking_dict cc reg = Inr pd"
    and "match_charger_to_parking_lot cc chs reg = Inr m"
    and "l \<in> fst ` set m"
  shows "\<exists>c\<in>set chs. fst (best_lot cc pd c) = Some l"
proof -
  from assms(3) have "map_of m l \<noteq> None" by (simp add: map_of_eq_None_iff)
  with match_result(2) [OF assms(1,2)] have "matched_to cc pd chs l \<noteq> []" by simp
  then obtain c where "c \<in> set (matched_to cc pd chs l)" by (cases "matched_to cc pd chs l") auto
  then show ?thesis by (auto simp: matched_to_def)
qed

text \<open>
  C8. Every key of the result is the name of a lot that some dong of the registry lists:
  a key is the best match of a charger, a best match is a key of the index, and the
  index is built from the registry alone.
\<close>

theorem registry_closure:
  assumes "match_charger_to_parking_lot cc chs reg = Inr m"
  shows "\<forall>l\<in>fst ` set m. \<exists>(dn, lots)\<in>set reg. l \<in> lot_name_of ` set lots"
proof
  fix l assume l: "l \<in> fst ` set m"
  from match_InrD [OF assms] obtain pd where pd: "build_parking_dict cc reg = Inr pd" by blast
  from match_keys [OF pd assms l] obtain c where "fst (best_lot cc pd c) = Some l" by blast
  from best_lot_in_dict [OF this] obtain info where "(l, info) \<in> set pd" by blast
  from build_parking_dict_entries [OF pd this]
  show "\<exists>(dn, lots)\<in>set reg. l \<in> lot_name_of ` set lots" by auto
qed

text \<open>
  C4. In the loop body the lot replaces the best match exactly when its score is at
  least 60 and above the best score so far. The inner loop starts from no match and
  score 0, so it ends with no match exactly when every lot of the index scores below 60,
  and it ends with the lot \<open>l\<close> and the score \<open>s\<close> exactly when \<open>l\<close> stands at a place of
  the index where the score is \<open>s\<close> and at least 60, every lot before it scores strictly
  less and every lot after it scores no more: of the lots with the highest score, if
  that is at least 60, the first in the order of the index is kept. The index lists the
  names of the registry in the order of the registry, every name at the place where it
  comes first, so for a registry without a repeated name the order of the index is the
  order of the registry. In a result, the keys are the lots that are the best match of a
  charger of the input, and the entries under a key are those of the chargers whose
  best match is that key, in the order of the input; the best score of each of them is at
  least 60.
\<close>

theorem best_match_selection:
  "snd (lot_step cc ch e best)
     = (if 60 \<le> pair_score cc ch e \<and> snd best < pair_score cc ch e
        then (Some (fst e), pair_score cc ch e) else best)
   \<and> (best_lot cc pd ch = (None, 0) \<longleftrightarrow> (\<forall>x\<in>set pd. pair_score cc ch x < 60))
   \<and> (\<forall>l s. best_lot cc pd ch = (Some l, s) \<longleftrightarrow>
        (\<exists>pre e post. pd = pre @ e # post \<and> fst e = l \<and> s = pair_score cc ch e
           \<and> 60 \<le> pair_score cc ch e
           \<and> (\<forall>x\<in>set pre. pair_score cc ch x < pair_score cc ch e)
           \<and> (\<forall>x\<in>set post. pair_score cc ch x \<le> pair_score cc ch e)))
   \<and> (\<forall>parking_dict. build_parking_dict cc reg = Inr parking_dict \<longrightarrow>
        map fst parking_dict = first_occurrences (registry_names reg)
        \<and> distinct (map fst parking_dict)
        \<and> (distinct (registry_names reg) \<longrightarrow> map fst parking_dict = registry_names reg))
   \<and> (\<forall>parking_dict m. build_parking_dict cc reg = Inr parking_dict
          \<and> match_charger_to_parking_lot cc chs reg = Inr m \<longrightarrow>
        distinct (map fst m)
        \<and> (\<forall>l. (map_of m l = None \<longleftrightarrow> matched_to cc parking_dict chs l = [])
              \<and> (\<forall>v. map_of m l = Some v \<longrightarrow>
                    has_charger v
                    \<and> map Inr (chargers v) = map make_entry (matched_to cc parking_dict chs l)))
        \<and> (\<forall>l v en. (l, v) \<in> set m \<and> en \<in> set (chargers v) \<longrightarrow>
              (\<exists>c\<in>set chs. make_entry c = Inr en
                 \<and> fst (best_lot cc parking_dict c) = Some l
                 \<and> 60 \<le> snd (best_lot cc parking_dict c))))"
proof (intro conjI allI impI)
  show "snd (lot_step cc ch e best)
     = (if 60 \<le> pair_score cc ch e \<and> snd best < pair_score cc ch e
        then (Some (fst e), pair_score cc ch e) else best)"
    by (simp only: lot_step_snd take_if_better_eq)
next
  show "best_lot cc pd ch = (None, 0) \<longleftrightarrow> (\<forall>x\<in>set pd. pair_score cc ch x < 60)"
    by (rule best_lot_None_iff)
next
  fix l s
  show "best_lot cc pd ch = (Some l, s) \<longleftrightarrow>
        (\<exists>pre e post. pd = pre @ e # post \<and> fst e = l \<and> s = pair_score cc ch e
           \<and> 60 \<le> pair_score cc ch e
           \<and> (\<forall>x\<in>set pre. pair_score cc ch x < pair_score cc ch e)
           \<and> (\<forall>x\<in>set post. pair_score cc ch x \<le> pair_score cc ch e))"
    by (rule best_lot_Some_iff)
next
  fix parking_dict
  assume b: "build_parking_dict cc reg = Inr parking_dict"
  show "map fst parking_dict = first_occurrences (registry_names reg)"
    by (rule build_parking_dict_keys [OF b])
  show "distinct (map fst parking_dict)"
    by (rule distinct_build_parking_dict [OF b])
  assume "distinct (registry_names reg)"
  then show "map fst parking_dict = registry_names reg"
    by (simp add: build_parking_dict_keys [OF b] first_occurrences_distinct)
next
  fix parking_dict m
  assume a: "build_parking_dict cc reg = Inr parking_dict
          \<and> match_charger_to_parking_lot cc chs reg = Inr m"
  then have b: "build_parking_dict cc reg = Inr parking_dict"
    and r: "match_charger_to_parking_lot cc chs reg = Inr m" by simp_all
  show "distinct (map fst m)" by (rule match_result(1) [OF b r])
  {
    fix l
    show "map_of m l = None \<longleftrightarrow> matched_to cc parking_dict chs l = []"
      using match_result(2) [OF b r] by blast
    fix v
    assume "map_of m l = Some v"
    with match_result(3) [OF b r]
    show "has_charger v" "map Inr (chargers v) = map make_entry (matched_to cc parking_dict chs l)"
      by blast+
  }
  fix l v en
  assume "(l, v) \<in> set m \<and> en \<in> set (chargers v)"
  then have "(l, v) \<in> set m" "en \<in> set (chargers v)" by simp_all
  from match_entries [OF b r this] obtain c where c: "c \<in> set chs" "make_entry c = Inr en"
    "fst (best_lot cc parking_dict c) = Some l" by blast
  from best_lot_in_dict [OF c(3)] have "60 \<le> snd (best_lot cc parking_dict c)" by auto
  with c show "\<exists>c\<in>set chs. make_entry c = Inr en
                 \<and> fst (best_lot cc parking_dict c) = Some l
                 \<and> 60 \<le> snd (best_lot cc parking_dict c)" by blast
qed

text \<open>
  C1, as the code has it. Every entry of the result is the entry of a charger of the
  input, and its charge type is "fast" if the charger type holds \<^verbatim>\<open>DC\<close> or the capacity
  is a text that holds the word "fast", else "slow" if the charger type holds \<^verbatim>\<open>AC\<close> or
  the capacity is a text that holds the word "slow", else "fast". The opening hours are
  not looked at.
\<close>

theorem charge_type_classification:
  assumes "match_charger_to_parking_lot cc chs reg = Inr m" and "(l, v) \<in> set m"
    and "en \<in> set (chargers v)"
  shows "\<exists>c\<in>set chs. make_entry c = Inr en
           \<and> charge_type en =
               (if contains (charger_type c) marker_dc \<or> has_text (capacity_of c) geupsok
                then geupsok
                else if contains (charger_type c) marker_ac \<or> has_text (capacity_of c) wansok
                then wansok
                else geupsok)"
proof -
  from match_InrD [OF assms(1)] obtain pd where pd: "build_parking_dict cc reg = Inr pd" by blast
  from match_entries [OF pd assms] obtain c where c: "c \<in> set chs" "make_entry c = Inr en"
    by blast
  from c(2) have "charge_type en =
               (if contains (charger_type c) marker_dc \<or> has_text (capacity_of c) geupsok
                then geupsok
                else if contains (charger_type c) marker_ac \<or> has_text (capacity_of c) wansok
                then wansok
                else geupsok)"
    by (auto simp: make_entry_def charge_type_of_def entry_with_def has_text_def
          split: if_splits cell.splits)
  with c show ?thesis by blast
qed

text \<open>
  C5. A pair whose dongs differ and on which the special case does not apply ends with
  score 0 and the best match as it was. And every entry of the result under a key is the
  entry of a charger whose derived dong is the dong under which the index holds that
  lot, a dong of the registry that lists the lot, unless the special case applies to the
  pair (both names hold "culture and health", the dongs differ and an address holds
  "swimming pool").
\<close>

theorem dong_gate_invariant:
  "(charger_dong cc ch \<noteq> Some (lot_dong info)
      \<and> \<not> (contains lot_name munhwageongang \<and> contains (charger_name ch) munhwageongang
            \<and> (contains (charger_address ch) suyeongjang \<or> contains (lot_address info) suyeongjang))
      \<longrightarrow> lot_step cc ch (lot_name, info) best = (0, best))
   \<and> (\<forall>m l v en. match_charger_to_parking_lot cc chs reg = Inr m \<and> (l, v) \<in> set m
          \<and> en \<in> set (chargers v) \<longrightarrow>
        (\<exists>c\<in>set chs. \<exists>parking_dict i. make_entry c = Inr en
           \<and> build_parking_dict cc reg = Inr parking_dict
           \<and> map_of parking_dict l = Some i
           \<and> (\<exists>(dn, lots)\<in>set reg. l \<in> lot_name_of ` set lots \<and> lot_dong i = dn)
           \<and> (charger_dong cc c = Some (lot_dong i)
               \<or> (contains l munhwageongang \<and> contains (charger_name c) munhwageongang
                   \<and> charger_dong cc c \<noteq> Some (lot_dong i)
                   \<and> (contains (charger_address c) suyeongjang
                       \<or> contains (lot_address i) suyeongjang)))))"
proof (intro conjI allI impI)
  assume "charger_dong cc ch \<noteq> Some (lot_dong info)
      \<and> \<not> (contains lot_name munhwageongang \<and> contains (charger_name ch) munhwageongang
            \<and> (contains (charger_address ch) suyeongjang \<or> contains (lot_address info) suyeongjang))"
  then show "lot_step cc ch (lot_name, info) best = (0, best)"
    using dong_gate [of cc ch info lot_name best] by blast
next
  fix m l v en
  assume a: "match_charger_to_parking_lot cc chs reg = Inr m \<and> (l, v) \<in> set m
          \<and> en \<in> set (chargers v)"
  then have r: "match_charger_to_parking_lot cc chs reg = Inr m"
    and lv: "(l, v) \<in> set m" "en \<in> set (chargers v)" by simp_all
  from match_InrD [OF r] obtain pd where pd: "build_parking_dict cc reg = Inr pd" by blast
  from match_entries [OF pd r lv] obtain c where c: "c \<in> set chs" "make_entry c = Inr en"
    "fst (best_lot cc pd c) = Some l" by blast
  from best_lot_in_dict [OF c(3)] obtain i where i: "(l, i) \<in> set pd"
    "60 \<le> pair_score cc c (l, i)" by blast
  from i(1) have mo: "map_of pd l = Some i"
    by (simp add: distinct_build_parking_dict [OF pd])
  have reg: "\<exists>(dn, lots)\<in>set reg. l \<in> lot_name_of ` set lots \<and> lot_dong i = dn"
    using build_parking_dict_entries [OF pd i(1)] .
  have gate: "charger_dong cc c = Some (lot_dong i)
               \<or> (contains l munhwageongang \<and> contains (charger_name c) munhwageongang
                   \<and> charger_dong cc c \<noteq> Some (lot_dong i)
                   \<and> (contains (charger_address c) suyeongjang
                       \<or> contains (lot_address i) suyeongjang))"
  proof (rule ccontr)
    assume n: "\<not> ?thesis"
    then have "lot_step cc c (l, i) (None, 0) = (0, (None, 0))"
      by (intro dong_gate) auto
    then have "pair_score cc c (l, i) = 0" by (simp add: pair_score_def)
    with i(2) show False by simp
  qed
  from c(1,2) pd mo reg gate
  show "\<exists>c\<in>set chs. \<exists>parking_dict i. make_entry c = Inr en
           \<and> build_parking_dict cc reg = Inr parking_dict
           \<and> map_of parking_dict l = Some i
           \<and> (\<exists>(dn, lots)\<in>set reg. l \<in> lot_name_of ` set lots \<and> lot_dong i = dn)
           \<and> (charger_dong cc c = Some (lot_dong i)
               \<or> (contains l munhwageongang \<and> contains (charger_name c) munhwageongang
                   \<and> charger_dong cc c \<noteq> Some (lot_dong i)
                   \<and> (contains (charger_address c) suyeongjang
                       \<or> contains (lot_address i) suyeongjang)))"
    by blast
qed

section \<open>The examples\<close>

lemma ex_dict:
  "build_parking_dict latin_hangul registry_ex
     = Inr [(name_sumaegol, info_sumaegol), (name_pool, info_pool)]"
  "build_parking_dict latin_hangul registry_tie
     = Inr [(name_sumaegol, info_sumaegol), (name_short, info_sumaegol)]"
  by (simp_all add: build_parking_dict_def registry_ex_def registry_tie_def index_lot_def
        info_sumaegol_def info_pool_def name_short_def eval_regex eval_strings)

lemma latin_hangul_space: "is_space latin_hangul c = ((9 \<le> c \<and> c \<le> 13) \<or> (28 \<le> c \<and> c \<le> 32))"
  by (simp add: latin_hangul_def)

lemma ex_sub [simp]:
  "charger_dong latin_hangul ch_sub = Some joryedong"
  "charger_address_number latin_hangul ch_sub = Some (joryedong @ [32, 49, 56, 48, 55, 45, 51])"
  "charger_dong latin_hangul ch_numeric = Some joryedong"
  "charger_address_number latin_hangul ch_numeric = Some (joryedong @ [32, 49, 56, 48, 55])"
  by (simp_all add: ch_sub_def ch_numeric_def eval_chargers eval_regex eval_strings)

lemma ex_address:
  "charger_address ch_sumaegol = suncheonsi @ [32] @ joryedong @ [32, 49, 56, 48, 55]"
  "charger_address ch_slow = suncheonsi @ [32] @ joryedong @ [32, 49, 56, 48, 55]"
  "charger_address ch_numeric = suncheonsi @ [32] @ joryedong @ [32, 49, 56, 48, 55]"
  "charger_address ch_sub = suncheonsi @ [32] @ joryedong @ [32, 49, 56, 48, 55, 45, 51]"
  "charger_address ch_center
     = jeonnam @ [32] @ suncheonsi @ [32, 47928, 54868, 44148, 44053, 49468, 53552, 32, 49688, 50689, 51109]"
  "charger_address ch_nowhere = suncheonsi"
  by (simp_all add: charger_address_def normalize_address_def ch_sumaegol_def
        ch_slow_def ch_numeric_def ch_sub_def ch_center_def ch_nowhere_def eval_strings)

lemmas eval_names =
  lot_name_in_charger_def keyword_match_def lot_name_keywords_def str_split_def common_words_def
  latin_hangul_space name_short_def

lemma ex_name:
  "charger_name ch_sumaegol = [49688, 47588, 44264, 32, 52649, 51204, 49548]"
  "charger_name ch_slow = [49688, 47588, 44264, 32, 52649, 51204, 49548]"
  "charger_name ch_numeric = [49688, 47588, 44264, 32, 52649, 51204, 49548]"
  "charger_name ch_sub = [49688, 47588, 44264, 32, 52649, 51204, 49548]"
  "charger_name ch_nowhere = [49688, 47588, 44264, 32, 52649, 51204, 49548]"
  "charger_name ch_center = suncheonsi @ [47928, 54868, 44148, 44053, 49468, 53552]"
  by (simp_all add: ch_sumaegol_def ch_slow_def ch_numeric_def ch_sub_def ch_center_def
        ch_nowhere_def)

lemmas eval_fields = ex_name info_sumaegol_def info_pool_def

lemma ex_scores:
  "pair_score latin_hangul ch_slow (name_sumaegol, info_sumaegol) = 140"
  "pair_score latin_hangul ch_slow (name_pool, info_pool) = 0"
  "pair_score latin_hangul ch_numeric (name_sumaegol, info_sumaegol) = 140"
  "pair_score latin_hangul ch_numeric (name_pool, info_pool) = 0"
  "pair_score latin_hangul ch_center (name_sumaegol, info_sumaegol) = 0"
  "pair_score latin_hangul ch_center (name_pool, info_pool) = 70"
  "pair_score latin_hangul ch_nowhere (name_sumaegol, info_sumaegol) = 0"
  "pair_score latin_hangul ch_nowhere (name_pool, info_pool) = 0"
  "pair_score latin_hangul ch_sub (name_sumaegol, info_sumaegol) = 60"
  "pair_score latin_hangul ch_sub (name_short, info_sumaegol) = 60"
  by (simp_all add: pair_score_def lot_step_def Let_def take_if_better_def ex_address eval_names
        eval_fields eval_strings)

lemma ex_best:
  "best_lot latin_hangul [(name_sumaegol, info_sumaegol), (name_pool, info_pool)] ch_slow
     = (Some name_sumaegol, 140)"
  "best_lot latin_hangul [(name_sumaegol, info_sumaegol), (name_pool, info_pool)] ch_numeric
     = (Some name_sumaegol, 140)"
  "best_lot latin_hangul [(name_sumaegol, info_sumaegol), (name_pool, info_pool)] ch_center
     = (Some name_pool, 70)"
  "best_lot latin_hangul [(name_sumaegol, info_sumaegol), (name_pool, info_pool)] ch_nowhere
     = (None, 0)"
  "best_lot latin_hangul [(name_sumaegol, info_sumaegol), (name_short, info_sumaegol)] ch_sub
     = (Some name_sumaegol, 60)"
  by (simp_all add: best_lot_def lot_step_snd take_if_better_def ex_scores)

lemma ex_names_distinct:
  "name_sumaegol \<noteq> name_pool" "name_pool \<noteq> name_sumaegol" "name_sumaegol \<noteq> []" "name_pool \<noteq> []"
  "name_sumaegol \<noteq> name_short" "name_short \<noteq> name_sumaegol" "name_short \<noteq> []"
  by (simp_all add: name_sumaegol_def name_pool_def name_short_def)

lemma ex_fields:
  "charger_type ch_slow = marker_ac" "capacity ch_slow = Some (Text [55])"
  "available_time ch_slow = Some geupsok"
  "charger_type ch_numeric = marker_ac" "capacity ch_numeric = Some (Number 7)"
  "charger_type ch_center = marker_dc" "charger_type ch_sub = marker_dc"
  by (simp_all add: ch_slow_def ch_numeric_def ch_center_def ch_sub_def ch_sumaegol_def)

lemma ex_entries:
  "make_entry ch_slow = Inr (entry_with ch_slow wansok)"
  "make_entry ch_center = Inr (entry_with ch_center geupsok)"
  "make_entry ch_sub = Inr (entry_with ch_sub geupsok)"
  "make_entry ch_numeric = Inl TypeError"
  by (simp_all add: make_entry_def charge_type_of_def capacity_of_def ex_fields eval_strings)

lemma ex_match:
  "match_charger_to_parking_lot latin_hangul [ch_nowhere, ch_slow, ch_center] registry_ex
     = Inr [(name_sumaegol, \<lparr> has_charger = True, chargers = [entry_with ch_slow wansok] \<rparr>),
            (name_pool, \<lparr> has_charger = True, chargers = [entry_with ch_center geupsok] \<rparr>)]"
  by (simp add: match_charger_to_parking_lot_def ex_dict charger_step_def ex_best truthy_def
        ex_names_distinct ex_entries)

lemma ex_match_slow:
  "match_charger_to_parking_lot latin_hangul [ch_slow] registry_ex
     = Inr [(name_sumaegol, \<lparr> has_charger = True, chargers = [entry_with ch_slow wansok] \<rparr>)]"
  by (simp add: match_charger_to_parking_lot_def ex_dict charger_step_def ex_best truthy_def
        ex_names_distinct ex_entries)

lemma ex_match_tie:
  "match_charger_to_parking_lot latin_hangul [ch_sub] registry_tie
     = Inr [(name_sumaegol, \<lparr> has_charger = True, chargers = [entry_with ch_sub geupsok] \<rparr>)]"
  by (simp add: match_charger_to_parking_lot_def ex_dict charger_step_def ex_best truthy_def
        ex_names_distinct ex_entries)

text \<open>
  Three chargers against the example registry: the one at "Suncheon-si" is dropped, and
  the two keys of the result are lots of the registry.
\<close>

theorem registry_closure_witness:
  "match_charger_to_parking_lot latin_hangul [ch_nowhere, ch_slow, ch_center] registry_ex
     = Inr [(name_sumaegol, \<lparr> has_charger = True, chargers = [entry_with ch_slow wansok] \<rparr>),
            (name_pool, \<lparr> has_charger = True, chargers = [entry_with ch_center geupsok] \<rparr>)]
   \<and> (\<exists>(dn, lots)\<in>set registry_ex. name_sumaegol \<in> lot_name_of ` set lots)
   \<and> (\<exists>(dn, lots)\<in>set registry_ex. name_pool \<in> lot_name_of ` set lots)"
  using registry_closure [OF ex_match] ex_match by simp

text \<open>
  The Sumaegol charger at "Suncheon-si Jorye-dong 1807-3" scores exactly 60 against both
  lots of the registry with two lots at one address: the first one becomes the best match
  and the second, with the same score, does not replace it. The index lists the two lots
  in the order of the registry, and the result holds the charger under the first lot and
  nothing under the second.
\<close>

theorem best_match_selection_witness:
  "build_parking_dict latin_hangul registry_tie
     = Inr [(name_sumaegol, info_sumaegol), (name_short, info_sumaegol)]
   \<and> registry_names registry_tie = [name_sumaegol, name_short]
   \<and> pair_score latin_hangul ch_sub (name_sumaegol, info_sumaegol) = 60
   \<and> pair_score latin_hangul ch_sub (name_short, info_sumaegol) = 60
   \<and> snd (lot_step latin_hangul ch_sub (name_sumaegol, info_sumaegol) (None, 0))
       = (Some name_sumaegol, 60)
   \<and> snd (lot_step latin_hangul ch_sub (name_short, info_sumaegol) (Some name_sumaegol, 60))
       = (Some name_sumaegol, 60)
   \<and> best_lot latin_hangul [(name_sumaegol, info_sumaegol), (name_short, info_sumaegol)] ch_sub
       = (Some name_sumaegol, 60)
   \<and> match_charger_to_parking_lot latin_hangul [ch_sub] registry_tie
       = Inr [(name_sumaegol, \<lparr> has_charger = True, chargers = [entry_with ch_sub geupsok] \<rparr>)]
   \<and> matched_to latin_hangul [(name_sumaegol, info_sumaegol), (name_short, info_sumaegol)]
         [ch_sub] name_short = []
   \<and> map make_entry
         (matched_to latin_hangul [(name_sumaegol, info_sumaegol), (name_short, info_sumaegol)]
            [ch_sub] name_sumaegol)
       = [Inr (entry_with ch_sub geupsok)]"
proof -
  let ?pd = "[(name_sumaegol, info_sumaegol), (name_short, info_sumaegol)]"
  let ?m = "[(name_sumaegol, \<lparr> has_charger = True, chargers = [entry_with ch_sub geupsok] \<rparr>)]"
  note t1 = best_match_selection [of latin_hangul ch_sub "(name_sumaegol, info_sumaegol)"
      "(None, 0)" ?pd registry_tie "[ch_sub]"]
  note t2 = best_match_selection [of latin_hangul ch_sub "(name_short, info_sumaegol)"
      "(Some name_sumaegol, 60)" ?pd registry_tie "[ch_sub]"]
  have n: "registry_names registry_tie = [name_sumaegol, name_short]"
    by (simp add: registry_names_def registry_tie_def)
  from t1 have a: "snd (lot_step latin_hangul ch_sub (name_sumaegol, info_sumaegol) (None, 0))
       = (Some name_sumaegol, 60)"
    by (simp add: ex_scores)
  from t2 have b: "snd (lot_step latin_hangul ch_sub (name_short, info_sumaegol)
         (Some name_sumaegol, 60)) = (Some name_sumaegol, 60)"
    by (simp add: ex_scores)
  from t1 have "\<forall>l s. best_lot latin_hangul ?pd ch_sub = (Some l, s) \<longleftrightarrow>
        (\<exists>pre e post. ?pd = pre @ e # post \<and> fst e = l \<and> s = pair_score latin_hangul ch_sub e
           \<and> 60 \<le> pair_score latin_hangul ch_sub e
           \<and> (\<forall>x\<in>set pre. pair_score latin_hangul ch_sub x < pair_score latin_hangul ch_sub e)
           \<and> (\<forall>x\<in>set post. pair_score latin_hangul ch_sub x \<le> pair_score latin_hangul ch_sub e))"
    by (elim conjE)
  moreover have "?pd = [] @ (name_sumaegol, info_sumaegol) # [(name_short, info_sumaegol)]
      \<and> fst (name_sumaegol, info_sumaegol) = name_sumaegol
      \<and> 60 = pair_score latin_hangul ch_sub (name_sumaegol, info_sumaegol)
      \<and> 60 \<le> pair_score latin_hangul ch_sub (name_sumaegol, info_sumaegol)
      \<and> (\<forall>x\<in>set []. pair_score latin_hangul ch_sub x
             < pair_score latin_hangul ch_sub (name_sumaegol, info_sumaegol))
      \<and> (\<forall>x\<in>set [(name_short, info_sumaegol)]. pair_score latin_hangul ch_sub x
             \<le> pair_score latin_hangul ch_sub (name_sumaegol, info_sumaegol))"
    by (simp add: ex_scores)
  ultimately have c: "best_lot latin_hangul ?pd ch_sub = (Some name_sumaegol, 60)"
    by blast
  from t1 have "\<forall>parking_dict m. build_parking_dict latin_hangul registry_tie = Inr parking_dict
          \<and> match_charger_to_parking_lot latin_hangul [ch_sub] registry_tie = Inr m \<longrightarrow>
        distinct (map fst m)
        \<and> (\<forall>l. (map_of m l = None \<longleftrightarrow> matched_to latin_hangul parking_dict [ch_sub] l = [])
              \<and> (\<forall>v. map_of m l = Some v \<longrightarrow>
                    has_charger v
                    \<and> map Inr (chargers v)
                        = map make_entry (matched_to latin_hangul parking_dict [ch_sub] l)))
        \<and> (\<forall>l v en. (l, v) \<in> set m \<and> en \<in> set (chargers v) \<longrightarrow>
              (\<exists>c\<in>set [ch_sub]. make_entry c = Inr en
                 \<and> fst (best_lot latin_hangul parking_dict c) = Some l
                 \<and> 60 \<le> snd (best_lot latin_hangul parking_dict c)))"
    by (elim conjE)
  with ex_dict(2) ex_match_tie
  have r: "\<forall>l. (map_of ?m l = None \<longleftrightarrow> matched_to latin_hangul ?pd [ch_sub] l = [])
              \<and> (\<forall>v. map_of ?m l = Some v \<longrightarrow>
                    has_charger v
                    \<and> map Inr (chargers v)
                        = map make_entry (matched_to latin_hangul ?pd [ch_sub] l))"
    by blast
  from r [rule_format, of name_short] have d: "matched_to latin_hangul ?pd [ch_sub] name_short = []"
    by (simp add: ex_names_distinct)
  from r [rule_format, of name_sumaegol]
  have e: "map make_entry (matched_to latin_hangul ?pd [ch_sub] name_sumaegol)
       = [Inr (entry_with ch_sub geupsok)]"
    by simp
  from ex_dict(2) n ex_scores(9,10) a b c ex_match_tie d e show ?thesis by (intro conjI)
qed

text \<open>
  The charger of type \<^verbatim>\<open>AC\<close> with capacity "7" is matched and classified as slow.
\<close>

theorem charge_type_classification_witness:
  "match_charger_to_parking_lot latin_hangul [ch_slow] registry_ex
     = Inr [(name_sumaegol, \<lparr> has_charger = True, chargers = [entry_with ch_slow wansok] \<rparr>)]
   \<and> make_entry ch_slow = Inr (entry_with ch_slow wansok)
   \<and> charge_type (entry_with ch_slow wansok) = wansok
   \<and> \<not> contains (charger_type ch_slow) marker_dc
   \<and> \<not> has_text (capacity_of ch_slow) geupsok
   \<and> contains (charger_type ch_slow) marker_ac"
proof -
  from charge_type_classification [OF ex_match_slow, of name_sumaegol
      "\<lparr> has_charger = True, chargers = [entry_with ch_slow wansok] \<rparr>" "entry_with ch_slow wansok"]
  have "\<exists>c\<in>set [ch_slow]. make_entry c = Inr (entry_with ch_slow wansok)
     \<and> charge_type (entry_with ch_slow wansok) =
         (if contains (charger_type c) marker_dc \<or> has_text (capacity_of c) geupsok
          then geupsok
          else if contains (charger_type c) marker_ac \<or> has_text (capacity_of c) wansok
          then wansok
          else geupsok)"
    by simp
  then have "make_entry ch_slow = Inr (entry_with ch_slow wansok)
     \<and> charge_type (entry_with ch_slow wansok) =
         (if contains (charger_type ch_slow) marker_dc \<or> has_text (capacity_of ch_slow) geupsok
          then geupsok
          else if contains (charger_type ch_slow) marker_ac \<or> has_text (capacity_of ch_slow) wansok
          then wansok
          else geupsok)"
    by (simp only: list.set bex_simps singleton_iff simp_thms)
  moreover have "\<not> contains (charger_type ch_slow) marker_dc"
    "\<not> has_text (capacity_of ch_slow) geupsok" "contains (charger_type ch_slow) marker_ac"
    by (simp_all add: has_text_def capacity_of_def ex_fields eval_strings)
  ultimately show ?thesis using ex_match_slow by simp
qed

text \<open>
  C1 as it is written fails on that charger: its opening hours hold the word "fast", and
  its entry in the result is classified as slow.
\<close>

theorem charge_type_availability_counterexample:
  "match_charger_to_parking_lot latin_hangul [ch_slow] registry_ex
     = Inr [(name_sumaegol, \<lparr> has_charger = True, chargers = [entry_with ch_slow wansok] \<rparr>)]
   \<and> contains (get_or_empty (available_time ch_slow)) geupsok
   \<and> charge_type (entry_with ch_slow wansok) = wansok
   \<and> wansok \<noteq> geupsok"
  using ex_match_slow
  by (simp add: entry_with_def ex_fields eval_strings)

text \<open>
  The charger at "Suncheon-si" has no dong and scores 0 against the Sumaegol lot; the
  charger matched to that lot has the lot's dong, Jorye-dong.
\<close>

theorem dong_gate_invariant_witness:
  "charger_dong latin_hangul ch_nowhere \<noteq> Some (lot_dong info_sumaegol)
   \<and> lot_step latin_hangul ch_nowhere (name_sumaegol, info_sumaegol) (None, 0) = (0, None, 0)
   \<and> match_charger_to_parking_lot latin_hangul [ch_slow] registry_ex
       = Inr [(name_sumaegol, \<lparr> has_charger = True, chargers = [entry_with ch_slow wansok] \<rparr>)]
   \<and> build_parking_dict latin_hangul registry_ex
       = Inr [(name_sumaegol, info_sumaegol), (name_pool, info_pool)]
   \<and> map_of [(name_sumaegol, info_sumaegol), (name_pool, info_pool)] name_sumaegol
       = Some info_sumaegol
   \<and> charger_dong latin_hangul ch_slow = Some (lot_dong info_sumaegol)"
proof -
  have d: "charger_dong latin_hangul ch_nowhere \<noteq> Some (lot_dong info_sumaegol)"
    by (simp add: info_sumaegol_def)
  have n: "\<not> contains name_sumaegol munhwageongang"
    by (simp add: eval_strings)
  note t = dong_gate_invariant [of latin_hangul ch_nowhere info_sumaegol name_sumaegol "(None, 0)"
      "[ch_slow]" registry_ex]
  from t d n
  have s: "lot_step latin_hangul ch_nowhere (name_sumaegol, info_sumaegol) (None, 0) = (0, None, 0)"
    by simp
  from t have "\<forall>m l v en. match_charger_to_parking_lot latin_hangul [ch_slow] registry_ex = Inr m
          \<and> (l, v) \<in> set m \<and> en \<in> set (chargers v) \<longrightarrow>
        (\<exists>c\<in>set [ch_slow]. \<exists>parking_dict i. make_entry c = Inr en
           \<and> build_parking_dict latin_hangul registry_ex = Inr parking_dict
           \<and> map_of parking_dict l = Some i
           \<and> (\<exists>(dn, lots)\<in>set registry_ex. l \<in> lot_name_of ` set lots \<and> lot_dong i = dn)
           \<and> (charger_dong latin_hangul c = Some (lot_dong i)
               \<or> (contains l munhwageongang \<and> contains (charger_name c) munhwageongang
                   \<and> charger_dong latin_hangul c \<noteq> Some (lot_dong i)
                   \<and> (contains (charger_address c) suyeongjang
                       \<or> contains (lot_address i) suyeongjang))))"
    by (elim conjE)
  from this [rule_format, of "[(name_sumaegol, \<lparr> has_charger = True,
      chargers = [entry_with ch_slow wansok] \<rparr>)]" name_sumaegol
      "\<lparr> has_charger = True, chargers = [entry_with ch_slow wansok] \<rparr>" "entry_with ch_slow wansok"]
    ex_match_slow n
  have g: "charger_dong latin_hangul ch_slow = Some (lot_dong info_sumaegol)"
    by (simp add: ex_dict)
  have "map_of [(name_sumaegol, info_sumaegol), (name_pool, info_pool)] name_sumaegol
       = Some info_sumaegol"
    by simp
  with d s ex_match_slow ex_dict(1) g show ?thesis by (intro conjI)
qed

text \<open>
  C9 fails on the code. The slow charger whose capacity is the number 7 is matched to the
  Sumaegol lot, its type holds no \<^verbatim>\<open>DC\<close>, and the search for the word "fast" in the number
  raises \<^verbatim>\<open>TypeError\<close>. And for a registry that holds a lot of four fields, as
  \<^verbatim>\<open>add_parking_lot\<close> appends them, the indexing raises \<^verbatim>\<open>ValueError\<close> when it unpacks
  that lot, whatever the chargers are.
\<close>

theorem match_raises:
  "best_lot latin_hangul [(name_sumaegol, info_sumaegol), (name_pool, info_pool)] ch_numeric
     = (Some name_sumaegol, 140)
   \<and> match_charger_to_parking_lot latin_hangul [ch_numeric] registry_ex = Inl TypeError
   \<and> match_charger_to_parking_lot cc chs registry_added = Inl ValueError"
proof (intro conjI)
  show "best_lot latin_hangul [(name_sumaegol, info_sumaegol), (name_pool, info_pool)] ch_numeric
     = (Some name_sumaegol, 140)"
    by (rule ex_best(2))
  show "match_charger_to_parking_lot latin_hangul [ch_numeric] registry_ex = Inl TypeError"
    by (simp add: match_charger_to_parking_lot_def ex_dict charger_step_def ex_best truthy_def
        ex_names_distinct ex_entries)
  show "match_charger_to_parking_lot cc chs registry_added = Inl ValueError"
    by (simp add: match_charger_to_parking_lot_def build_parking_dict_def registry_added_def
        index_lot_def)
qed

end
